theory Spec2Isabelle
  imports Complex_Main
begin

section \<open>Characters and strings of the source language\<close>

text \<open>
  The program is \<^verbatim>\<open>amazing_trace.py\<close>. Its strings are modelled as \<^typ>\<open>string\<close>;
  a \<^typ>\<open>char\<close> stands for one code point below 256, so the model covers input text
  in that range (traceroute output is ASCII). In that range the decimal digits of
  \<^verbatim>\<open>\d\<close> and \<^verbatim>\<open>int()\<close> are \<^verbatim>\<open>0\<close> to \<^verbatim>\<open>9\<close>, and the white space of \<^verbatim>\<open>\s\<close> and of
  \<^verbatim>\<open>str.strip()\<close> is the same set: the code points 9 to 13, 28 to 32, 133 and 160.
\<close>

definition is_digit :: "char \<Rightarrow> bool" where
  "is_digit c = (let n = (of_char c :: nat) in 48 \<le> n \<and> n \<le> 57)"

definition is_space :: "char \<Rightarrow> bool" where
  "is_space c =
     (let n = (of_char c :: nat)
      in (9 \<le> n \<and> n \<le> 13) \<or> (28 \<le> n \<and> n \<le> 32) \<or> n = 133 \<or> n = 160)"

definition newline :: char where
  "newline = CHR 0x0A"

text \<open>\<^verbatim>\<open>traceroute_output.split('\n')\<close>: the pieces between newlines, at least one.\<close>

fun split_aux :: "string \<Rightarrow> string \<Rightarrow> string list" where
  "split_aux cur [] = [cur]"
| "split_aux cur (c # cs) =
     (if c = newline then cur # split_aux [] cs else split_aux (cur @ [c]) cs)"

definition split_lines :: "string \<Rightarrow> string list" where
  "split_lines s = split_aux [] s"

text \<open>\<^verbatim>\<open>line.strip()\<close>: white space removed at both ends.\<close>

definition strip :: "string \<Rightarrow> string" where
  "strip s = rev (dropWhile is_space (rev (dropWhile is_space s)))"

section \<open>The regular expressions of the source\<close>

text \<open>
  The four patterns use literals, the classes \<^verbatim>\<open>\d\<close>, \<^verbatim>\<open>\s\<close>, \<^verbatim>\<open>\S\<close>, \<^verbatim>\<open>.\<close> and
  \<^verbatim>\<open>[^\s\(]\<close>, sequence, alternation, the greedy \<^verbatim>\<open>*\<close>, \<^verbatim>\<open>+\<close> and \<^verbatim>\<open>?\<close>, capturing
  groups and the anchors \<^verbatim>\<open>^\<close> and \<^verbatim>\<open>$\<close>. Every \<^verbatim>\<open>*\<close> and \<^verbatim>\<open>+\<close> repeats a single
  character class, so repetition is modelled for classes only: \<open>Many c\<close> is \<^verbatim>\<open>c*\<close> and
  \<open>Plus c\<close> is \<^verbatim>\<open>c+\<close>.
\<close>

datatype cclass =
    Lit char
  | Digit
  | Space
  | NonSpace
  | AnyChar
  | NotSpaceLParen

fun in_class :: "cclass \<Rightarrow> char \<Rightarrow> bool" where
  "in_class (Lit a) c = (c = a)"
| "in_class Digit c = is_digit c"
| "in_class Space c = is_space c"
| "in_class NonSpace c = (\<not> is_space c)"
| "in_class AnyChar c = (c \<noteq> newline)"
| "in_class NotSpaceLParen c = (\<not> is_space c \<and> c \<noteq> CHR ''('')"

datatype regex =
    Atom cclass
  | Seq regex regex
  | Alt regex regex
  | Many cclass
  | Plus cclass
  | Opt regex
  | Group nat regex
  | Bol
  | Eol

type_synonym groups = "nat \<Rightarrow> string option"

type_synonym rmatch = "nat \<times> groups"

type_synonym cont = "nat \<Rightarrow> string \<Rightarrow> groups \<Rightarrow> rmatch option"

text \<open>
  A backtracking matcher in continuation style, as \<^verbatim>\<open>re\<close> matches: \<open>p\<close> is the
  position in the subject, \<open>s\<close> the text from there on, \<open>g\<close> the groups captured so
  far and \<open>k\<close> what remains to be matched. A greedy repetition tries the longest run
  first and gives characters back one at a time.
\<close>

fun many :: "(char \<Rightarrow> bool) \<Rightarrow> nat \<Rightarrow> string \<Rightarrow> groups \<Rightarrow> cont \<Rightarrow> rmatch option" where
  "many P p [] g k = k p [] g"
| "many P p (c # cs) g k =
     (if P c
      then (case many P (Suc p) cs g k of
              Some m \<Rightarrow> Some m
            | None \<Rightarrow> k p (c # cs) g)
      else k p (c # cs) g)"

primrec rmatch :: "regex \<Rightarrow> nat \<Rightarrow> string \<Rightarrow> groups \<Rightarrow> cont \<Rightarrow> rmatch option" where
  "rmatch (Atom c) = (\<lambda>p s g k.
     (case s of [] \<Rightarrow> None | x # xs \<Rightarrow> if in_class c x then k (Suc p) xs g else None))"
| "rmatch (Seq a b) = (\<lambda>p s g k. rmatch a p s g (\<lambda>p' s' g'. rmatch b p' s' g' k))"
| "rmatch (Alt a b) = (\<lambda>p s g k.
     (case rmatch a p s g k of Some m \<Rightarrow> Some m | None \<Rightarrow> rmatch b p s g k))"
| "rmatch (Many c) = (\<lambda>p s g k. many (in_class c) p s g k)"
| "rmatch (Plus c) = (\<lambda>p s g k.
     (case s of
        [] \<Rightarrow> None
      | x # xs \<Rightarrow> if in_class c x then many (in_class c) (Suc p) xs g k else None))"
| "rmatch (Opt a) = (\<lambda>p s g k.
     (case rmatch a p s g k of Some m \<Rightarrow> Some m | None \<Rightarrow> k p s g))"
| "rmatch (Group n a) = (\<lambda>p s g k.
     rmatch a p s g (\<lambda>p' s' g'. k p' s' (g'(n \<mapsto> take (p' - p) s))))"
| "rmatch Bol = (\<lambda>p s g k. if p = 0 then k p s g else None)"
| "rmatch Eol = (\<lambda>p s g k. if s = [] \<or> s = [newline] then k p s g else None)"

definition accept :: cont where
  "accept p s g = Some (p, g)"

definition no_groups :: groups where
  "no_groups = (\<lambda>n. None)"

text \<open>\<^verbatim>\<open>pattern.match(s)\<close>: a match at the start of \<open>s\<close>.\<close>

definition re_match :: "regex \<Rightarrow> string \<Rightarrow> rmatch option" where
  "re_match r s = rmatch r 0 s no_groups accept"

text \<open>\<^verbatim>\<open>pattern.search(s)\<close>: the first position where the pattern matches.\<close>

fun search_from :: "regex \<Rightarrow> nat \<Rightarrow> string \<Rightarrow> rmatch option" where
  "search_from r p [] = rmatch r p [] no_groups accept"
| "search_from r p (c # cs) =
     (case rmatch r p (c # cs) no_groups accept of
        Some m \<Rightarrow> Some m
      | None \<Rightarrow> search_from r (Suc p) cs)"

definition re_search :: "regex \<Rightarrow> string \<Rightarrow> rmatch option" where
  "re_search r s = search_from r 0 s"

text \<open>
  \<^verbatim>\<open>pattern.finditer(s)\<close>: the matches from left to right, each search starting where
  the previous match ended. After an empty match the scan resumes one character
  later; no pattern of the source matches the empty string.
\<close>

function finditer_from :: "regex \<Rightarrow> nat \<Rightarrow> string \<Rightarrow> groups list" where
  "finditer_from r p s =
     (case search_from r p s of
        None \<Rightarrow> []
      | Some (e, g) \<Rightarrow>
          if p < e \<and> s \<noteq> [] then g # finditer_from r e (drop (e - p) s)
          else (case s of [] \<Rightarrow> [g] | c # cs \<Rightarrow> g # finditer_from r (Suc p) cs))"
  by pat_completeness auto
termination
proof (relation "measure (\<lambda>(r, p, s). length s)")
  fix r :: regex and p e :: nat and s :: string
  assume "p < e \<and> s \<noteq> []"
  then have "length (drop (e - p) s) < length s"
    by (cases s) auto
  then show "((r, e, drop (e - p) s), (r, p, s)) \<in> measure (\<lambda>(r, p, s). length s)"
    by simp
qed auto

definition finditer :: "regex \<Rightarrow> string \<Rightarrow> groups list" where
  "finditer r s = finditer_from r 0 s"

text \<open>\<^verbatim>\<open>\d+\.\d+\.\d+\.\d+\<close>\<close>

definition dotted_quad :: regex where
  "dotted_quad =
     Seq (Plus Digit) (Seq (Atom (Lit CHR ''.''))
    (Seq (Plus Digit) (Seq (Atom (Lit CHR ''.''))
    (Seq (Plus Digit) (Seq (Atom (Lit CHR ''.'')) (Plus Digit))))))"

text \<open>\<^verbatim>\<open>^(\d+)\s+(.*)$\<close>\<close>

definition hop_line_regex :: regex where
  "hop_line_regex =
     Seq Bol (Seq (Group 1 (Plus Digit)) (Seq (Plus Space) (Seq (Group 2 (Many AnyChar)) Eol)))"

text \<open>\<^verbatim>\<open>\d+(?:\.\d+)?\<close>\<close>

definition decimal_re :: regex where
  "decimal_re = Seq (Plus Digit) (Opt (Seq (Atom (Lit CHR ''.'')) (Plus Digit)))"

text \<open>\<^verbatim>\<open>(?:\s*!\S+)?\<close>\<close>

definition annotation_re :: regex where
  "annotation_re = Opt (Seq (Many Space) (Seq (Atom (Lit CHR ''!'')) (Plus NonSpace)))"

text \<open>\<^verbatim>\<open>\s*ms(?:\s*!\S+)?\<close>\<close>

definition unit_re :: regex where
  "unit_re = Seq (Many Space) (Seq (Atom (Lit CHR ''m'')) (Seq (Atom (Lit CHR ''s'')) annotation_re))"

text \<open>\<^verbatim>\<open>(\*)|(\d+(?:\.\d+)?)\s*ms(?:\s*!\S+)?\<close>\<close>

definition time_pattern :: regex where
  "time_pattern = Alt (Group 1 (Atom (Lit CHR ''*''))) (Seq (Group 2 decimal_re) unit_re)"

text \<open>\<^verbatim>\<open>([^\s\(]+)\s*\((\d+\.\d+\.\d+\.\d+)\)\<close>\<close>

definition host_ip_pattern :: regex where
  "host_ip_pattern =
     Seq (Group 1 (Plus NotSpaceLParen))
    (Seq (Many Space)
    (Seq (Atom (Lit CHR ''(''))
    (Seq (Group 2 dotted_quad) (Atom (Lit CHR '')'')))))"

text \<open>\<^verbatim>\<open>(\d+\.\d+\.\d+\.\d+)\<close>\<close>

definition ip_pattern :: regex where
  "ip_pattern = Group 1 dotted_quad"

section \<open>Conversions that can raise\<close>

datatype error = TypeError | ValueError | OSError

text \<open>
  \<^verbatim>\<open>int(x)\<close> on what a group of a match holds: \<^verbatim>\<open>None\<close> raises TypeError; a string of
  decimal digits gives its value, unless it is longer than the interpreter's limit on
  the conversion of digit strings (\<^verbatim>\<open>sys.int_max_str_digits\<close>, 4300 unless the
  interpreter is configured otherwise; leading zeros count), where CPython 3.11 and
  later raises ValueError. The source passes nothing but the digits captured by
  \<^verbatim>\<open>\d+\<close>; any other text is a ValueError here.
\<close>

definition int_max_str_digits :: nat where
  "int_max_str_digits = 4300"

definition digit_val :: "char \<Rightarrow> int" where
  "digit_val c = int (of_char c) - 48"

definition decimal_val :: "string \<Rightarrow> int" where
  "decimal_val s = foldl (\<lambda>a c. 10 * a + digit_val c) 0 s"

definition py_int :: "string option \<Rightarrow> error + int" where
  "py_int x =
     (case x of
        None \<Rightarrow> Inl TypeError
      | Some s \<Rightarrow>
          if s = [] \<or> \<not> list_all is_digit s then Inl ValueError
          else if int_max_str_digits < length s then Inl ValueError
          else Inr (decimal_val s))"

text \<open>
  A Python float is a binary64 number. A finite one is modelled by its real value (the
  sign of zero is not kept); the two infinities are values of their own.
\<close>

datatype pyfloat = Finite real | PosInf | NegInf

text \<open>Rounding to the nearest integer, a tie to the even one.\<close>

definition round_half_even :: "real \<Rightarrow> int" where
  "round_half_even y =
     (let f = \<lfloor>y\<rfloor>; d = y - of_int f
      in if d < 1 / 2 then f else if 1 / 2 < d then f + 1 else if even f then f else f + 1)"

text \<open>The binary exponent of a number: of one that is at least 1, through its integer part.\<close>

function log2_floor :: "int \<Rightarrow> int" where
  "log2_floor n = (if n < 2 then 0 else 1 + log2_floor (n div 2))"
  by pat_completeness auto
termination
  by (relation "measure nat") auto

declare log2_floor.simps [simp del]

text \<open>
  The binary exponent of a positive number below 1, not lower than the exponent -1022
  of the smallest normal number: below it the numbers are subnormal and keep that
  exponent.
\<close>

fun below_one_exp :: "nat \<Rightarrow> real \<Rightarrow> int" where
  "below_one_exp 0 x = 0"
| "below_one_exp (Suc n) x = (if 1 \<le> x then 0 else below_one_exp n (2 * x) - 1)"

definition pow2 :: "int \<Rightarrow> real" where
  "pow2 q = (if 0 \<le> q then 2 ^ nat q else 1 / 2 ^ nat (- q))"

text \<open>
  The binary64 number nearest to a positive real: a mantissa of 53 bits, rounded to
  nearest with ties to even, and infinity from \<open>2 ^ 1024\<close> on.
\<close>

definition round_pos :: "real \<Rightarrow> pyfloat" where
  "round_pos x =
     (let e = (if 1 \<le> x then log2_floor \<lfloor>x\<rfloor> else below_one_exp 1022 x);
          q = e - 52;
          r = of_int (round_half_even (x / pow2 q)) * pow2 q
      in if 2 ^ 1024 \<le> r then PosInf else Finite r)"

definition round_binary64 :: "real \<Rightarrow> pyfloat" where
  "round_binary64 x =
     (if x = 0 then Finite 0
      else if 0 < x then round_pos x
      else (case round_pos (- x) of
              Finite r \<Rightarrow> Finite (- r)
            | PosInf \<Rightarrow> NegInf
            | NegInf \<Rightarrow> PosInf))"


text \<open>
  \<^verbatim>\<open>float(x)\<close> on what a group of a match holds: \<^verbatim>\<open>None\<close> raises TypeError; digits
  with an optional fraction give the binary64 number nearest to the value of the
  literal, which is infinity for a literal too large and zero for one too small. The
  source passes nothing but the text captured by \<^verbatim>\<open>\d+(?:\.\d+)?\<close>; any other text is
  a ValueError here.
\<close>

definition is_decimal_literal :: "string \<Rightarrow> bool" where
  "is_decimal_literal s =
     (takeWhile is_digit s \<noteq> [] \<and>
      (case dropWhile is_digit s of
         [] \<Rightarrow> True
       | c # fs \<Rightarrow> c = CHR ''.'' \<and> fs \<noteq> [] \<and> list_all is_digit fs))"

text \<open>The value of a decimal literal, as a real number.\<close>

definition literal_value :: "string \<Rightarrow> real" where
  "literal_value s =
     of_int (decimal_val (takeWhile is_digit s)) +
     (case dropWhile is_digit s of
        [] \<Rightarrow> 0
      | c # fs \<Rightarrow> of_int (decimal_val fs) / 10 ^ length fs)"

definition py_float :: "string option \<Rightarrow> error + pyfloat" where
  "py_float x =
     (case x of
        None \<Rightarrow> Inl TypeError
      | Some s \<Rightarrow>
          if is_decimal_literal s then Inr (round_binary64 (literal_value s))
          else Inl ValueError)"

section \<open>\<^verbatim>\<open>parse_traceroute\<close>\<close>

record hop_info =
  hop :: int
  ip :: "string option"
  hostname :: "string option"
  rtt :: "pyfloat option list"

text \<open>The loop over \<^verbatim>\<open>time_pattern.finditer(rest)\<close>, appending to \<^verbatim>\<open>rtt_values\<close>.\<close>

fun rtt_loop :: "groups list \<Rightarrow> pyfloat option list \<Rightarrow> error + pyfloat option list" where
  "rtt_loop [] rtt_values = Inr rtt_values"
| "rtt_loop (m # ms) rtt_values =
     (if m 1 = Some ''*'' then rtt_loop ms (rtt_values @ [None])
      else (case py_float (m 2) of
              Inl e \<Rightarrow> Inl e
            | Inr v \<Rightarrow> rtt_loop ms (rtt_values @ [Some v])))"

text \<open>
  The two searches for the responder: the pair \<open>(ip, hostname)\<close> that the body of the
  loop leaves in its variables \<^verbatim>\<open>ip\<close> and \<^verbatim>\<open>hostname\<close>.
\<close>

definition responder :: "string \<Rightarrow> string option \<times> string option" where
  "responder rest =
     (case re_search host_ip_pattern rest of
        Some (e, g) \<Rightarrow>
          (let possible_hostname = g 1; possible_ip = g 2
           in (possible_ip, if possible_hostname = possible_ip then None else possible_hostname))
      | None \<Rightarrow>
          (case re_search ip_pattern rest of
             Some (e, g) \<Rightarrow> (g 1, None)
           | None \<Rightarrow> (None, None)))"

text \<open>
  The body of \<^verbatim>\<open>for line in lines\<close>: \<open>Inr None\<close> is \<^verbatim>\<open>continue\<close>, \<open>Inr (Some h)\<close> is
  the dictionary appended to \<^verbatim>\<open>hops\<close>, \<open>Inl e\<close> an exception that leaves the function.
\<close>

definition hop_of_line :: "string \<Rightarrow> error + hop_info option" where
  "hop_of_line line0 =
     (let line = strip line0 in
      if line = [] then Inr None
      else (case re_match hop_line_regex line of
              None \<Rightarrow> Inr None
            | Some (e, hop_match) \<Rightarrow>
                (case py_int (hop_match 1) of
                   Inl err \<Rightarrow> Inl err
                 | Inr hop_num \<Rightarrow>
                     (case hop_match 2 of
                        None \<Rightarrow> Inl TypeError
                      | Some rest \<Rightarrow>
                          (case rtt_loop (finditer time_pattern rest) [] of
                             Inl err \<Rightarrow> Inl err
                           | Inr rtt_values \<Rightarrow>
                               (case responder rest of
                                  (ip', hostname') \<Rightarrow>
                                    Inr (Some \<lparr>hop = hop_num, ip = ip',
                                               hostname = hostname', rtt = rtt_values\<rparr>)))))))"

fun parse_loop :: "string list \<Rightarrow> hop_info list \<Rightarrow> error + hop_info list" where
  "parse_loop [] hops = Inr hops"
| "parse_loop (line # lines) hops =
     (case hop_of_line line of
        Inl err \<Rightarrow> Inl err
      | Inr None \<Rightarrow> parse_loop lines hops
      | Inr (Some hop_info) \<Rightarrow> parse_loop lines (hops @ [hop_info]))"

definition parse_traceroute :: "string \<Rightarrow> error + hop_info list" where
  "parse_traceroute traceroute_output = parse_loop (split_lines traceroute_output) []"

section \<open>\<^verbatim>\<open>execute_traceroute\<close>\<close>

text \<open>
  What \<^verbatim>\<open>subprocess.run\<close> finds when the process has ended, with \<^verbatim>\<open>capture_output\<close>
  and \<^verbatim>\<open>text\<close> set: the exit status and the two captured streams.
\<close>

record completed =
  returncode :: int
  stdout :: string
  stderr :: string

text \<open>
  The operating system is a parameter \<open>run\<close>: it maps the argument list to the ended
  process, or to the error of a process that could not be started. With
  \<^verbatim>\<open>check=True\<close> a non-zero status raises \<^verbatim>\<open>CalledProcessError\<close>, which the source
  catches; no other exception is caught.
\<close>

definition execute_traceroute :: "(string list \<Rightarrow> error + completed) \<Rightarrow> string \<Rightarrow> error + string" where
  "execute_traceroute run destination =
     (case run [''traceroute'', destination] of
        Inl err \<Rightarrow> Inl err
      | Inr result \<Rightarrow>
          if returncode result = 0 then Inr (stdout result)
          else Inr (stdout result @ [newline] @ stderr result))"

section \<open>The vocabulary of the claims\<close>

text \<open>
  The claims describe the lines and tokens in words. The definitions of this section
  put those words into scanners that read the text from left to right; the theorems
  compare them with what the regular expressions of the source find. Where the words
  of a claim and the code part, in the timeout marker and in the name token, the words
  of the claim have a definition whose name starts with \<open>claimed\<close>, and the other
  definition says what the code takes.
\<close>

text \<open>
  The hop-number prefix: an integer at the start of the line, followed by white space
  and then the rest of the line, the payload. The result is the integer's digits and
  the payload.
\<close>

definition hop_prefix :: "string \<Rightarrow> (string \<times> string) option" where
  "hop_prefix t =
     (let ds = takeWhile is_digit t; r = dropWhile is_digit t
      in if ds \<noteq> [] \<and> takeWhile is_space r \<noteq> [] then Some (ds, dropWhile is_space r)
         else None)"

definition is_hop_line :: "string \<Rightarrow> bool" where
  "is_hop_line l = (hop_prefix (strip l) \<noteq> None)"

definition hop_digits :: "string \<Rightarrow> string" where
  "hop_digits l = (case hop_prefix (strip l) of None \<Rightarrow> [] | Some (ds, rest) \<Rightarrow> ds)"

definition payload :: "string \<Rightarrow> string" where
  "payload l = (case hop_prefix (strip l) of None \<Rightarrow> [] | Some (ds, rest) \<Rightarrow> rest)"

text \<open>
  A timing token as the code takes it: the timeout marker is an asterisk wherever it
  stands, also inside a word; the other token is a decimal number followed, after
  optional white space, by the unit \<^verbatim>\<open>ms\<close>.
\<close>

datatype timing = Timeout | Millis string

text \<open>The decimal number at the head of a text: digits, and a fraction if one follows.\<close>

definition decimal_at :: "string \<Rightarrow> string" where
  "decimal_at s =
     (let ds = takeWhile is_digit s in
      case dropWhile is_digit s of
        [] \<Rightarrow> ds
      | c # r \<Rightarrow> if c = CHR ''.'' \<and> takeWhile is_digit r \<noteq> [] then ds @ c # takeWhile is_digit r
                 else ds)"

text \<open>
  The annotation at the head of a text, if there is one: white space, an exclamation
  mark and the characters up to the next white space. The empty text otherwise.
\<close>

definition annotation :: "string \<Rightarrow> string" where
  "annotation s =
     (case dropWhile is_space s of
        [] \<Rightarrow> []
      | c # r \<Rightarrow>
          if c = CHR ''!'' \<and> takeWhile (in_class NonSpace) r \<noteq> []
          then takeWhile is_space s @ c # takeWhile (in_class NonSpace) r
          else [])"

text \<open>The timing token at the head of a text, with the number of characters it takes.\<close>

definition timing_at :: "string \<Rightarrow> (timing \<times> nat) option" where
  "timing_at s =
     (case s of
        [] \<Rightarrow> None
      | c # cs \<Rightarrow>
          if c = CHR ''*'' then Some (Timeout, 1)
          else if is_digit c then
            (let num = decimal_at s; r = drop (length num) s
             in case dropWhile is_space r of
                  m # u # r' \<Rightarrow>
                    if m = CHR ''m'' \<and> u = CHR ''s''
                    then Some (Millis num,
                               length num + length (takeWhile is_space r) + 2 + length (annotation r'))
                    else None
                | _ \<Rightarrow> None)
          else None)"

text \<open>The timing tokens of a text, from left to right.\<close>

fun timing_tokens :: "string \<Rightarrow> timing list" where
  "timing_tokens [] = []"
| "timing_tokens (c # cs) =
     (case timing_at (c # cs) of
        Some (tok, n) \<Rightarrow> tok # timing_tokens (drop (n - 1) cs)
      | None \<Rightarrow> timing_tokens cs)"



text \<open>The groups that a match of \<^verbatim>\<open>time_pattern\<close> holds for a timing token.\<close>

fun token_groups :: "timing \<Rightarrow> groups" where
  "token_groups Timeout = no_groups(1 \<mapsto> ''*'')"
| "token_groups (Millis num) = no_groups(2 \<mapsto> num)"

text \<open>The slot a timing token contributes to the latencies.\<close>

fun slot :: "timing \<Rightarrow> pyfloat option" where
  "slot Timeout = None"
| "slot (Millis num) = Some (round_binary64 (literal_value num))"

text \<open>Digits followed by a dot, at the head of a text: the text of both, and the rest.\<close>

definition num_dot :: "string \<Rightarrow> (string \<times> string) option" where
  "num_dot s =
     (case dropWhile is_digit s of
        [] \<Rightarrow> None
      | c # r \<Rightarrow> if takeWhile is_digit s \<noteq> [] \<and> c = CHR ''.''
                 then Some (takeWhile is_digit s @ [c], r) else None)"

text \<open>The dotted-quad address at the head of a text.\<close>

definition quad_at :: "string \<Rightarrow> string option" where
  "quad_at s =
     (case num_dot s of
        None \<Rightarrow> None
      | Some (a, r1) \<Rightarrow>
          (case num_dot r1 of
             None \<Rightarrow> None
           | Some (b, r2) \<Rightarrow>
               (case num_dot r2 of
                  None \<Rightarrow> None
                | Some (c, r3) \<Rightarrow>
                    if takeWhile is_digit r3 = [] then None
                    else Some (a @ b @ c @ takeWhile is_digit r3))))"

text \<open>
  The composite at the head of a text, as the code takes it: a token of characters
  that are neither white space nor an opening parenthesis (a closing parenthesis may
  be among them), then, after optional white space, the address in parentheses. The
  result is the token and the address.
\<close>

definition composite_at :: "string \<Rightarrow> (string \<times> string) option" where
  "composite_at s =
     (let name = takeWhile (in_class NotSpaceLParen) s
      in if name = [] then None
         else (case dropWhile is_space (dropWhile (in_class NotSpaceLParen) s) of
                 [] \<Rightarrow> None
               | c # r \<Rightarrow>
                   if c = CHR ''('' then
                     (case quad_at r of
                        None \<Rightarrow> None
                      | Some q \<Rightarrow>
                          (case drop (length q) r of
                             [] \<Rightarrow> None
                           | d # r' \<Rightarrow> if d = CHR '')'' then Some (name, q) else None))
                   else None))"

text \<open>
  The composite in the words of claim C3: the token has no white space and no
  parenthesis, opening or closing.
\<close>

definition is_name_char :: "char \<Rightarrow> bool" where
  "is_name_char c = (\<not> is_space c \<and> c \<noteq> CHR ''('' \<and> c \<noteq> CHR '')'')"

definition claimed_composite_at :: "string \<Rightarrow> (string \<times> string) option" where
  "claimed_composite_at s =
     (let name = takeWhile is_name_char s
      in if name = [] then None
         else (case dropWhile is_space (dropWhile is_name_char s) of
                 [] \<Rightarrow> None
               | c # r \<Rightarrow>
                   if c = CHR ''('' then
                     (case quad_at r of
                        None \<Rightarrow> None
                      | Some q \<Rightarrow>
                          (case drop (length q) r of
                             [] \<Rightarrow> None
                           | d # r' \<Rightarrow> if d = CHR '')'' then Some (name, q) else None))
                   else None))"

text \<open>The first place of a text, from the left, where a scanner finds something.\<close>

fun find_first :: "(string \<Rightarrow> 'a option) \<Rightarrow> string \<Rightarrow> 'a option" where
  "find_first f [] = f []"
| "find_first f (c # cs) = (case f (c # cs) of Some x \<Rightarrow> Some x | None \<Rightarrow> find_first f cs)"

text \<open>Exactly four groups of digits, separated by dots.\<close>

fun split_on :: "char \<Rightarrow> string \<Rightarrow> string \<Rightarrow> string list" where
  "split_on sep cur [] = [cur]"
| "split_on sep cur (c # cs) =
     (if c = sep then cur # split_on sep [] cs else split_on sep (cur @ [c]) cs)"

definition is_dotted_quad :: "string \<Rightarrow> bool" where
  "is_dotted_quad a =
     (let parts = split_on CHR ''.'' [] a
      in length parts = 4 \<and> list_all (\<lambda>n. n \<noteq> [] \<and> list_all is_digit n) parts)"

text \<open>
  The responder of a payload, in two tiers: the first composite gives the address and,
  unless it equals the address, the name; without a composite the first bare address
  gives the address alone.
\<close>

definition two_tier :: "string \<Rightarrow> string option \<times> string option" where
  "two_tier rest =
     (case find_first composite_at rest of
        Some (name, a) \<Rightarrow> (Some a, if name = a then None else Some name)
      | None \<Rightarrow>
          (case find_first quad_at rest of
             Some a \<Rightarrow> (Some a, None)
           | None \<Rightarrow> (None, None)))"

text \<open>
  The record of a hop line, field by field: the value of its digits, the responder of
  its payload and the slots of the payload's timing tokens.
\<close>

definition line_record :: "string \<Rightarrow> hop_info" where
  "line_record l =
     \<lparr>hop = decimal_val (hop_digits l),
      ip = fst (responder (payload l)),
      hostname = snd (responder (payload l)),
      rtt = map slot (timing_tokens (payload l))\<rparr>"

section \<open>The matcher on greedy runs\<close>

text \<open>
  A greedy repetition followed by something that cannot start with a character of the
  repeated class takes the longest run and never gives a character back. The same
  holds when what follows succeeds after the longest run.
\<close>

declare rmatch.simps [simp del]

lemma in_class_Digit: "in_class Digit = is_digit"
  by (rule ext) simp

lemma in_class_Space: "in_class Space = is_space"
  by (rule ext) simp

lemma rmatch_Seq: "rmatch (Seq a b) p s g k = rmatch a p s g (\<lambda>p' s' g'. rmatch b p' s' g' k)"
  by (simp add: rmatch.simps)

lemma rmatch_Group:
  "rmatch (Group n a) p s g k = rmatch a p s g (\<lambda>p' s' g'. k p' s' (g'(n \<mapsto> take (p' - p) s)))"
  by (simp add: rmatch.simps)

lemma rmatch_Atom:
  "rmatch (Atom c) p s g k = (case s of [] \<Rightarrow> None | x # xs \<Rightarrow> if in_class c x then k (Suc p) xs g else None)"
  by (simp add: rmatch.simps)

lemma rmatch_Many: "rmatch (Many c) p s g k = many (in_class c) p s g k"
  by (simp add: rmatch.simps)

lemma rmatch_Opt:
  "rmatch (Opt a) p s g k = (case rmatch a p s g k of Some m \<Rightarrow> Some m | None \<Rightarrow> k p s g)"
  by (simp add: rmatch.simps)

lemma rmatch_Alt:
  "rmatch (Alt a b) p s g k = (case rmatch a p s g k of Some m \<Rightarrow> Some m | None \<Rightarrow> rmatch b p s g k)"
  by (simp add: rmatch.simps)

lemma rmatch_Bol: "rmatch Bol p s g k = (if p = 0 then k p s g else None)"
  by (simp add: rmatch.simps)

lemma rmatch_Eol: "rmatch Eol p s g k = (if s = [] \<or> s = [newline] then k p s g else None)"
  by (simp add: rmatch.simps)

lemma many_munch:
  assumes "\<And>c cs p' g'. P c \<Longrightarrow> k p' (c # cs) g' = None"
  shows "many P p s g k = k (p + length (takeWhile P s)) (dropWhile P s) g"
proof (induction s arbitrary: p)
  case Nil
  show ?case by simp
next
  case (Cons c cs)
  show ?case
  proof (cases "P c")
    case True
    with Cons[of "Suc p"] assms[OF True, of p cs g] show ?thesis
      by (simp split: option.splits)
  next
    case False
    then show ?thesis by simp
  qed
qed

lemma many_greedy:
  "k (p + length (takeWhile P s)) (dropWhile P s) g = Some m \<Longrightarrow> many P p s g k = Some m"
  by (induction s arbitrary: p) (auto split: option.splits if_splits)

lemma plus_none:
  "takeWhile (in_class c) s = [] \<Longrightarrow> rmatch (Plus c) p s g k = None"
  by (cases s) (auto simp: rmatch.simps split: if_splits)

lemma plus_greedy:
  assumes "takeWhile (in_class c) s \<noteq> []"
    and "k (p + length (takeWhile (in_class c) s)) (dropWhile (in_class c) s) g = Some m"
  shows "rmatch (Plus c) p s g k = Some m"
proof (cases s)
  case Nil
  with assms show ?thesis by simp
next
  case (Cons x xs)
  with assms have x: "in_class c x" by (auto split: if_splits)
  have "many (in_class c) (Suc p) xs g k = Some m"
    by (rule many_greedy) (use assms Cons x in simp)
  with Cons x show ?thesis by (simp add: rmatch.simps)
qed

lemma plus_munch:
  assumes "\<And>x xs p' g'. in_class c x \<Longrightarrow> k p' (x # xs) g' = None"
  shows "rmatch (Plus c) p s g k =
     (if takeWhile (in_class c) s = [] then None
      else k (p + length (takeWhile (in_class c) s)) (dropWhile (in_class c) s) g)"
proof (cases s)
  case Nil
  then show ?thesis by (simp add: rmatch.simps)
next
  case (Cons x xs)
  show ?thesis
  proof (cases "in_class c x")
    case True
    have "many (in_class c) (Suc p) xs g k =
            k (Suc p + length (takeWhile (in_class c) xs)) (dropWhile (in_class c) xs) g"
      by (rule many_munch) (rule assms)
    with Cons True show ?thesis by (simp add: rmatch.simps)
  next
    case False
    with Cons show ?thesis by (simp add: rmatch.simps)
  qed
qed

lemma len_take_drop: "length (takeWhile P s) + length (dropWhile P s) = length s"
  by (metis length_append takeWhile_dropWhile_id)

lemma takeWhile_no_newline: "newline \<notin> set s \<Longrightarrow> takeWhile (in_class AnyChar) s = s"
  by (induction s) auto

lemma dropWhile_no_newline: "newline \<notin> set s \<Longrightarrow> dropWhile (in_class AnyChar) s = []"
  by (induction s) auto

lemma digit_not_space: "is_digit c \<Longrightarrow> \<not> is_space c"
  by (auto simp: is_digit_def is_space_def Let_def)

lemma payload_eol:
  assumes "newline \<notin> set s"
  shows "rmatch (Seq (Group 2 (Many AnyChar)) Eol) p s g accept = Some (p + length s, g(2 \<mapsto> s))"
proof -
  let ?k = "\<lambda>p' s' g'. rmatch Eol p' s' (g'(2 \<mapsto> take (p' - p) s)) accept"
  have "many (in_class AnyChar) p s g ?k = Some (p + length s, g(2 \<mapsto> s))"
    by (rule many_greedy)
       (simp add: takeWhile_no_newline[OF assms] dropWhile_no_newline[OF assms] accept_def rmatch_Eol)
  then show ?thesis by (simp add: rmatch_Seq rmatch_Group rmatch_Many)
qed

lemma spaces_payload_none:
  "takeWhile is_space s = [] \<Longrightarrow>
   rmatch (Seq (Plus Space) (Seq (Group 2 (Many AnyChar)) Eol)) p s g accept = None"
  by (simp add: rmatch_Seq[of "Plus Space"] plus_none in_class_Space)

lemma spaces_payload_some:
  assumes "takeWhile is_space s \<noteq> []" and nl: "newline \<notin> set (dropWhile is_space s)"
  shows "rmatch (Seq (Plus Space) (Seq (Group 2 (Many AnyChar)) Eol)) p s g accept =
         Some (p + length s, g(2 \<mapsto> dropWhile is_space s))"
proof -
  have "rmatch (Plus Space) p s g (\<lambda>p' s' g'. rmatch (Seq (Group 2 (Many AnyChar)) Eol) p' s' g' accept)
          = Some (p + length s, g(2 \<mapsto> dropWhile is_space s))"
    by (rule plus_greedy)
       (use assms(1) len_take_drop[of is_space s] in \<open>simp_all add: payload_eol[OF nl] in_class_Space\<close>)
  then show ?thesis by (simp add: rmatch_Seq[of "Plus Space"])
qed

lemma re_match_hop_line:
  assumes "newline \<notin> set t"
  shows "re_match hop_line_regex t =
     (case hop_prefix t of
        None \<Rightarrow> None
      | Some (ds, rest) \<Rightarrow> Some (length t, no_groups(1 \<mapsto> ds, 2 \<mapsto> rest)))"
proof -
  let ?tail = "Seq (Plus Space) (Seq (Group 2 (Many AnyChar)) Eol)"
  let ?K = "\<lambda>p' s' g'. rmatch ?tail p' s' (g'(1 \<mapsto> take (p' - 0) t)) accept"
  have fail: "\<And>x xs p' g'. in_class Digit x \<Longrightarrow> ?K p' (x # xs) g' = None"
    by (rule spaces_payload_none) (simp add: digit_not_space)
  have "re_match hop_line_regex t = rmatch (Plus Digit) 0 t no_groups ?K"
    unfolding re_match_def hop_line_regex_def
    by (simp add: rmatch_Bol rmatch_Seq[of Bol] rmatch_Seq[of "Group _ _"] rmatch_Group)
  also have "\<dots> = (if takeWhile (in_class Digit) t = [] then None
      else ?K (0 + length (takeWhile (in_class Digit) t)) (dropWhile (in_class Digit) t) no_groups)"
    by (rule plus_munch) (rule fail)
  finally have step: "re_match hop_line_regex t =
     (if takeWhile is_digit t = [] then None
      else rmatch ?tail (length (takeWhile is_digit t)) (dropWhile is_digit t)
             (no_groups(1 \<mapsto> takeWhile is_digit t)) accept)"
    by (simp add: takeWhile_eq_take[symmetric] in_class_Digit)
  have nr: "newline \<notin> set (dropWhile is_space (dropWhile is_digit t))"
    using assms by (auto dest!: set_dropWhileD)
  show ?thesis
  proof (cases "takeWhile is_digit t = [] \<or> takeWhile is_space (dropWhile is_digit t) = []")
    case True
    then show ?thesis
      unfolding step by (auto simp: hop_prefix_def spaces_payload_none)
  next
    case False
    then show ?thesis
      unfolding step using len_take_drop[of is_digit t]
      by (simp add: hop_prefix_def spaces_payload_some[OF _ nr])
  qed
qed

section \<open>What \<^verbatim>\<open>time_pattern\<close> matches\<close>

lemma space_not_bang: "is_space c \<Longrightarrow> c \<noteq> CHR ''!''"
  by (auto simp: is_space_def)

lemma space_not_m: "is_space c \<Longrightarrow> c \<noteq> CHR ''m''"
  by (auto simp: is_space_def)

lemma digit_not_dot: "is_digit c \<Longrightarrow> c \<noteq> CHR ''.''"
  by (auto simp: is_digit_def)

lemma digit_not_m: "is_digit c \<Longrightarrow> c \<noteq> CHR ''m''"
  by (auto simp: is_digit_def)

lemma digit_not_star: "is_digit c \<Longrightarrow> c \<noteq> CHR ''*''"
  by (auto simp: is_digit_def)

lemma dot_not_space: "\<not> is_space CHR ''.''"
  by (simp add: is_space_def)

lemma bang_nonspace:
  "rmatch (Seq (Atom (Lit CHR ''!'')) (Plus NonSpace)) p s g accept =
     (case s of
        [] \<Rightarrow> None
      | c # r \<Rightarrow>
          if c = CHR ''!'' \<and> takeWhile (in_class NonSpace) r \<noteq> []
          then Some (Suc p + length (takeWhile (in_class NonSpace) r), g) else None)"
proof (cases s)
  case Nil
  then show ?thesis by (simp add: rmatch_Seq rmatch_Atom)
next
  case (Cons c r)
  show ?thesis
  proof (cases "c = CHR ''!'' \<and> takeWhile (in_class NonSpace) r \<noteq> []")
    case True
    then have "rmatch (Plus NonSpace) (Suc p) r g accept =
                 Some (Suc p + length (takeWhile (in_class NonSpace) r), g)"
      by (intro plus_greedy) (simp_all add: accept_def)
    with Cons True show ?thesis by (simp add: rmatch_Seq rmatch_Atom)
  next
    case False
    with Cons show ?thesis by (auto simp: rmatch_Seq rmatch_Atom plus_none)
  qed
qed

lemma rmatch_annotation:
  "rmatch annotation_re p s g accept = Some (p + length (annotation s), g)"
proof -
  let ?K = "\<lambda>p' s' g'. rmatch (Seq (Atom (Lit CHR ''!'')) (Plus NonSpace)) p' s' g' accept"
  define r where "r = dropWhile is_space s"
  define ws where "ws = takeWhile is_space s"
  have fail: "\<And>c cs p' g'. in_class Space c \<Longrightarrow> ?K p' (c # cs) g' = None"
    by (simp add: bang_nonspace space_not_bang)
  have "rmatch (Seq (Many Space) (Seq (Atom (Lit CHR ''!'')) (Plus NonSpace))) p s g accept =
          many (in_class Space) p s g ?K"
    by (simp add: rmatch_Seq[of "Many Space"] rmatch_Many)
  also have "\<dots> = ?K (p + length (takeWhile (in_class Space) s)) (dropWhile (in_class Space) s) g"
    by (rule many_munch) (rule fail)
  finally have inner: "rmatch (Seq (Many Space) (Seq (Atom (Lit CHR ''!'')) (Plus NonSpace))) p s g accept =
      ?K (p + length ws) r g"
    by (simp add: in_class_Space r_def ws_def)
  have ann: "annotation s =
     (case r of
        [] \<Rightarrow> []
      | c # r' \<Rightarrow>
          if c = CHR ''!'' \<and> takeWhile (in_class NonSpace) r' \<noteq> []
          then ws @ c # takeWhile (in_class NonSpace) r'
          else [])"
    unfolding annotation_def r_def ws_def ..
  show ?thesis
    unfolding annotation_re_def rmatch_Opt inner bang_nonspace ann
    by (simp add: accept_def split: list.splits)
qed

lemma rmatch_unit:
  "rmatch unit_re p s g accept =
     (case dropWhile is_space s of
        m # u # r' \<Rightarrow>
          if m = CHR ''m'' \<and> u = CHR ''s''
          then Some (p + length (takeWhile is_space s) + 2 + length (annotation r'), g) else None
      | _ \<Rightarrow> None)"
proof -
  let ?K = "\<lambda>p' s' g'. rmatch (Seq (Atom (Lit CHR ''m'')) (Seq (Atom (Lit CHR ''s'')) annotation_re)) p' s' g' accept"
  define r where "r = dropWhile is_space s"
  have K: "\<And>p' s' g'. ?K p' s' g' =
       (case s' of
          m # u # r' \<Rightarrow>
            if m = CHR ''m'' \<and> u = CHR ''s'' then Some (p' + 2 + length (annotation r'), g') else None
        | _ \<Rightarrow> None)"
    by (simp add: rmatch_Seq[of "Atom _"] rmatch_Atom rmatch_annotation split: list.splits)
  have fail: "\<And>c cs p' g'. in_class Space c \<Longrightarrow> ?K p' (c # cs) g' = None"
    by (simp add: K space_not_m split: list.splits)
  have "rmatch unit_re p s g accept = many (in_class Space) p s g ?K"
    by (simp add: unit_re_def rmatch_Seq[of "Many Space"] rmatch_Many)
  also have "\<dots> = ?K (p + length (takeWhile (in_class Space) s)) (dropWhile (in_class Space) s) g"
    by (rule many_munch) (rule fail)
  also have "\<dots> = ?K (p + length (takeWhile is_space s)) r g"
    by (simp add: in_class_Space r_def)
  finally show ?thesis
    unfolding K r_def[symmetric] by (simp split: list.splits)
qed

lemma unit_fails_digit: "is_digit c \<Longrightarrow> rmatch unit_re p (c # cs) g accept = None"
  by (simp add: rmatch_unit digit_not_space digit_not_m split: list.splits)

lemma unit_fails_dot: "rmatch unit_re p (CHR ''.'' # cs) g accept = None"
  by (simp add: rmatch_unit dot_not_space split: list.splits)

lemma decimal_at_cases:
  obtains (frac) r where "dropWhile is_digit s = CHR ''.'' # r" and "takeWhile is_digit r \<noteq> []"
      and "decimal_at s = takeWhile is_digit s @ CHR ''.'' # takeWhile is_digit r"
      and "drop (length (decimal_at s)) s = dropWhile is_digit r"
  | (whole) "\<And>r. dropWhile is_digit s = CHR ''.'' # r \<Longrightarrow> takeWhile is_digit r = []"
      and "decimal_at s = takeWhile is_digit s"
      and "drop (length (decimal_at s)) s = dropWhile is_digit s"
proof -
  define ds where "ds = takeWhile is_digit s"
  define t where "t = dropWhile is_digit s"
  have s: "s = ds @ t" by (simp add: ds_def t_def)
  have dec: "decimal_at s =
     (case t of [] \<Rightarrow> ds
      | c # r \<Rightarrow> if c = CHR ''.'' \<and> takeWhile is_digit r \<noteq> [] then ds @ c # takeWhile is_digit r else ds)"
    unfolding decimal_at_def Let_def ds_def t_def ..
  show thesis
  proof (cases "\<exists>r. t = CHR ''.'' # r \<and> takeWhile is_digit r \<noteq> []")
    case True
    then obtain r where r: "t = CHR ''.'' # r" "takeWhile is_digit r \<noteq> []" by blast
    have d: "decimal_at s = ds @ CHR ''.'' # takeWhile is_digit r"
      unfolding dec using r by simp
    have "s = (ds @ CHR ''.'' # takeWhile is_digit r) @ dropWhile is_digit r"
      unfolding s r by simp
    then have "drop (length (decimal_at s)) s = dropWhile is_digit r"
      unfolding d by (metis append_eq_conv_conj)
    with r d show thesis
      unfolding ds_def t_def by (rule frac)
  next
    case False
    then have d: "decimal_at s = ds"
      unfolding dec by (auto split: list.splits)
    have "drop (length ds) s = t"
      unfolding s by simp
    with False d show thesis
      unfolding ds_def t_def by (intro whole) auto
  qed
qed

lemma decimal_at_prefix: "take (length (decimal_at s)) s = decimal_at s"
proof (cases s rule: decimal_at_cases)
  case (frac r)
  have "s = takeWhile is_digit s @ dropWhile is_digit s" by simp
  then have "s = decimal_at s @ dropWhile is_digit r"
    unfolding frac(1,3) by (metis append.assoc append_Cons takeWhile_dropWhile_id)
  then show ?thesis by (metis append_eq_conv_conj)
next
  case whole
  then show ?thesis by (simp add: takeWhile_eq_take[symmetric])
qed

lemma rmatch_number:
  "rmatch (Seq (Group 2 decimal_re) unit_re) p s g accept =
     (if takeWhile is_digit s = [] then None
      else rmatch unit_re (p + length (decimal_at s)) (drop (length (decimal_at s)) s)
             (g(2 \<mapsto> decimal_at s)) accept)"
proof -
  let ?K = "\<lambda>p' s' g'. rmatch unit_re p' s' (g'(2 \<mapsto> take (p' - p) s)) accept"
  let ?frac = "Seq (Atom (Lit CHR ''.'')) (Plus Digit)"
  let ?K1 = "\<lambda>p' s' g'. rmatch (Opt ?frac) p' s' g' ?K"
  have Kfail: "\<And>x xs p' g'. in_class Digit x \<Longrightarrow> ?K p' (x # xs) g' = None"
    by (simp add: unit_fails_digit)
  have digits: "\<And>p' s' g'. rmatch (Plus Digit) p' s' g' ?K =
      (if takeWhile is_digit s' = [] then None
       else ?K (p' + length (takeWhile is_digit s')) (dropWhile is_digit s') g')"
    unfolding in_class_Digit[symmetric] by (rule plus_munch) (rule Kfail)
  have frac_nil: "\<And>p' g'. rmatch ?frac p' [] g' ?K = None"
    by (simp add: rmatch_Seq[of "Atom _"] rmatch_Atom)
  have frac_cons: "\<And>p' c r g'. rmatch ?frac p' (c # r) g' ?K =
       (if c = CHR ''.'' \<and> takeWhile is_digit r \<noteq> []
        then ?K (Suc p' + length (takeWhile is_digit r)) (dropWhile is_digit r) g' else None)"
    unfolding rmatch_Seq[of "Atom _"] rmatch_Atom digits by simp
  have K1fail: "\<And>x xs p' g'. in_class Digit x \<Longrightarrow> ?K1 p' (x # xs) g' = None"
    unfolding rmatch_Opt frac_cons by (simp add: digit_not_dot unit_fails_digit)
  have "rmatch (Seq (Group 2 decimal_re) unit_re) p s g accept = rmatch (Plus Digit) p s g ?K1"
    by (simp add: rmatch_Seq[of "Group _ _"] rmatch_Group decimal_re_def rmatch_Seq[of "Plus _"])
  also have "\<dots> = (if takeWhile (in_class Digit) s = [] then None
      else ?K1 (p + length (takeWhile (in_class Digit) s)) (dropWhile (in_class Digit) s) g)"
    by (rule plus_munch) (rule K1fail)
  finally have step: "rmatch (Seq (Group 2 decimal_re) unit_re) p s g accept =
     (if takeWhile is_digit s = [] then None
      else ?K1 (p + length (takeWhile is_digit s)) (dropWhile is_digit s) g)"
    by (simp add: in_class_Digit)
  have K1: "?K1 (p + length (takeWhile is_digit s)) (dropWhile is_digit s) g =
           rmatch unit_re (p + length (decimal_at s)) (drop (length (decimal_at s)) s)
             (g(2 \<mapsto> decimal_at s)) accept"
  proof (cases s rule: decimal_at_cases)
    case (frac r)
    have len: "length (decimal_at s) = Suc (length (takeWhile is_digit s) + length (takeWhile is_digit r))"
      unfolding frac(3) by simp
    have "rmatch ?frac (p + length (takeWhile is_digit s)) (dropWhile is_digit s) g ?K =
            rmatch unit_re (p + length (decimal_at s)) (dropWhile is_digit r)
              (g(2 \<mapsto> decimal_at s)) accept"
      unfolding frac(1) frac_cons using frac(2) decimal_at_prefix[of s] len by (simp add: add.assoc)
    moreover have "?K (p + length (takeWhile is_digit s)) (dropWhile is_digit s) g = None"
      unfolding frac(1) by (rule unit_fails_dot)
    ultimately show ?thesis
      unfolding rmatch_Opt frac(4) by (simp split: option.splits)
  next
    case whole
    have "rmatch ?frac (p + length (takeWhile is_digit s)) (dropWhile is_digit s) g ?K = None"
    proof (cases "dropWhile is_digit s")
      case Nil
      show ?thesis unfolding Nil by (rule frac_nil)
    next
      case (Cons c r)
      show ?thesis unfolding Cons frac_cons using whole(1)[of r] Cons by auto
    qed
    moreover have "take (length (takeWhile is_digit s)) s = takeWhile is_digit s"
      by (simp add: takeWhile_eq_take[symmetric])
    moreover have "drop (length (takeWhile is_digit s)) s = dropWhile is_digit s"
      by (simp add: dropWhile_eq_drop[symmetric])
    ultimately show ?thesis
      unfolding rmatch_Opt whole(2) by simp
  qed
  show ?thesis unfolding step K1 ..
qed

lemma rmatch_time_pattern:
  "rmatch time_pattern p s no_groups accept =
     (case timing_at s of None \<Rightarrow> None | Some (tok, n) \<Rightarrow> Some (p + n, token_groups tok))"
proof (cases s)
  case Nil
  then show ?thesis
    by (simp add: time_pattern_def rmatch_Alt rmatch_Group rmatch_Atom rmatch_number timing_at_def)
next
  case (Cons c cs)
  show ?thesis
  proof (cases "c = CHR ''*''")
    case True
    with Cons show ?thesis
      by (simp add: time_pattern_def rmatch_Alt rmatch_Group rmatch_Atom timing_at_def accept_def)
  next
    case False
    define r where "r = drop (length (decimal_at s)) s"
    define q where "q = dropWhile is_space r"
    have alt: "rmatch time_pattern p s no_groups accept =
            rmatch (Seq (Group 2 decimal_re) unit_re) p s no_groups accept"
      using Cons False by (simp add: time_pattern_def rmatch_Alt rmatch_Group rmatch_Atom)
    have tw: "(takeWhile is_digit s = []) = (\<not> is_digit c)"
      using Cons by simp
    have ta: "timing_at s =
       (if is_digit c then
          (case q of
             m # u # r' \<Rightarrow>
               if m = CHR ''m'' \<and> u = CHR ''s''
               then Some (Millis (decimal_at s),
                          length (decimal_at s) + length (takeWhile is_space r) + 2 + length (annotation r'))
               else None
           | _ \<Rightarrow> None)
        else None)"
      unfolding timing_at_def q_def r_def Let_def using Cons False by simp
    show ?thesis
      unfolding alt rmatch_number tw rmatch_unit ta r_def[symmetric] q_def[symmetric]
      by (simp add: add.assoc split: list.splits)
  qed
qed

section \<open>The timing tokens of a payload\<close>

lemma timing_at_pos: "timing_at s = Some (tok, n) \<Longrightarrow> 0 < n"
  by (auto simp: timing_at_def Let_def split: list.splits if_splits)

lemma search_time_progress:
  "search_from time_pattern p s = Some (e, g) \<Longrightarrow> p < e \<and> s \<noteq> []"
proof (induction s arbitrary: p)
  case Nil
  then show ?case by (simp add: rmatch_time_pattern timing_at_def)
next
  case (Cons c cs)
  show ?case
  proof (cases "timing_at (c # cs)")
    case None
    with Cons.prems have "search_from time_pattern (Suc p) cs = Some (e, g)"
      by (simp add: rmatch_time_pattern)
    from Cons.IH[OF this] show ?thesis by simp
  next
    case (Some a)
    then obtain tok n where a: "timing_at (c # cs) = Some (tok, n)" by (cases a) auto
    with Cons.prems timing_at_pos[OF a] show ?thesis
      by (auto simp: rmatch_time_pattern)
  qed
qed

lemma finditer_time_pattern:
  "finditer_from time_pattern p s = map token_groups (timing_tokens s)"
proof (induction s arbitrary: p rule: timing_tokens.induct)
  case 1
  show ?case
    by (subst finditer_from.simps) (simp add: rmatch_time_pattern timing_at_def)
next
  case (2 c cs)
  show ?case
  proof (cases "timing_at (c # cs)")
    case (Some a)
    then obtain tok n where a: "timing_at (c # cs) = Some (tok, n)" by (cases a) auto
    have n: "0 < n" by (rule timing_at_pos[OF a])
    then have dr: "drop n (c # cs) = drop (n - 1) cs" by (cases n) auto
    have "finditer_from time_pattern p (c # cs) =
            token_groups tok # finditer_from time_pattern (p + n) (drop (n - 1) cs)"
      by (subst finditer_from.simps) (use a n dr in \<open>simp add: rmatch_time_pattern\<close>)
    with "2.IH"(2)[OF a refl] a show ?thesis by simp
  next
    case None
    have s: "search_from time_pattern p (c # cs) = search_from time_pattern (Suc p) cs"
      using None by (simp add: rmatch_time_pattern)
    note L = finditer_from.simps[of time_pattern p "c # cs", unfolded s]
    note R = finditer_from.simps[of time_pattern "Suc p" cs]
    have "finditer_from time_pattern p (c # cs) = finditer_from time_pattern (Suc p) cs"
    proof (cases "search_from time_pattern (Suc p) cs")
      case None
      have "finditer_from time_pattern p (c # cs) = []"
        unfolding L None by simp
      moreover have "finditer_from time_pattern (Suc p) cs = []"
        unfolding R None by simp
      ultimately show ?thesis by simp
    next
      case (Some m)
      then obtain e g where m: "search_from time_pattern (Suc p) cs = Some (e, g)" by (cases m) auto
      from search_time_progress[OF m] have e: "Suc p < e" and cs: "cs \<noteq> []" by auto
      then have dr: "drop (e - p) (c # cs) = drop (e - Suc p) cs"
        by (simp add: drop_Cons')
      have "finditer_from time_pattern p (c # cs) = g # finditer_from time_pattern e (drop (e - Suc p) cs)"
        unfolding L m using e dr by simp
      moreover have "finditer_from time_pattern (Suc p) cs = g # finditer_from time_pattern e (drop (e - Suc p) cs)"
        unfolding R m using e cs by simp
      ultimately show ?thesis by simp
    qed
    with "2.IH"(1)[OF None] None show ?thesis by simp
  qed
qed

lemma decimal_at_literal:
  assumes "takeWhile is_digit s \<noteq> []"
  shows "is_decimal_literal (decimal_at s)"
proof -
  have nd: "\<And>r. \<not> is_digit CHR ''.''" by (simp add: is_digit_def)
  show ?thesis
  proof (cases s rule: decimal_at_cases)
    case (frac r)
    have all: "\<forall>c\<in>set (takeWhile is_digit s). is_digit c" by (auto dest: set_takeWhileD)
    have tw: "takeWhile is_digit (takeWhile is_digit s @ CHR ''.'' # takeWhile is_digit r) = takeWhile is_digit s"
      using all nd by simp
    have dw: "dropWhile is_digit (takeWhile is_digit s @ CHR ''.'' # takeWhile is_digit r) = CHR ''.'' # takeWhile is_digit r"
      using all nd by simp
    show ?thesis
      unfolding frac(3) is_decimal_literal_def tw dw
      using assms frac(2) by (auto simp: list_all_iff dest: set_takeWhileD)
  next
    case whole
    have tw: "takeWhile is_digit (takeWhile is_digit s) = takeWhile is_digit s"
      by simp
    have dw: "dropWhile is_digit (takeWhile is_digit s) = []"
      by (auto dest: set_takeWhileD)
    show ?thesis
      unfolding whole(2) is_decimal_literal_def tw dw using assms by simp
  qed
qed

lemma timing_at_literal:
  "timing_at s = Some (Millis num, n) \<Longrightarrow> is_decimal_literal num"
proof -
  assume a: "timing_at s = Some (Millis num, n)"
  then obtain c cs where s: "s = c # cs" and c: "is_digit c" and num: "num = decimal_at s"
    by (auto simp: timing_at_def Let_def split: list.splits if_splits)
  from s c have "takeWhile is_digit s \<noteq> []" by simp
  from decimal_at_literal[OF this] num show ?thesis by simp
qed

lemma timing_tokens_literal:
  "Millis num \<in> set (timing_tokens s) \<Longrightarrow> is_decimal_literal num"
proof (induction s rule: timing_tokens.induct)
  case 1
  then show ?case by simp
next
  case (2 c cs)
  then show ?case
    by (auto split: option.splits dest: timing_at_literal)
qed

lemma rtt_loop_tokens:
  assumes "\<forall>num. Millis num \<in> set toks \<longrightarrow> is_decimal_literal num"
  shows "rtt_loop (map token_groups toks) rtt_values = Inr (rtt_values @ map slot toks)"
  using assms
proof (induction toks arbitrary: rtt_values)
  case Nil
  then show ?case by simp
next
  case (Cons tok toks)
  then show ?case
    by (cases tok) (auto simp: py_float_def no_groups_def)
qed

lemma rtt_of_payload:
  "rtt_loop (finditer time_pattern rest) [] = Inr (map slot (timing_tokens rest))"
  unfolding finditer_def finditer_time_pattern
  using rtt_loop_tokens[of "timing_tokens rest" "[]"] timing_tokens_literal by simp

section \<open>What the two address patterns match\<close>

lemma plus_total:
  assumes "\<And>p' s' g'. k p' s' g' \<noteq> None"
  shows "rmatch (Plus c) p s g k =
     (if takeWhile (in_class c) s = [] then None
      else k (p + length (takeWhile (in_class c) s)) (dropWhile (in_class c) s) g)"
proof (cases "takeWhile (in_class c) s = []")
  case True
  then show ?thesis by (simp add: plus_none)
next
  case False
  obtain m where m: "k (p + length (takeWhile (in_class c) s)) (dropWhile (in_class c) s) g = Some m"
    using assms by (meson option.exhaust)
  have "rmatch (Plus c) p s g k = Some m"
    using False m by (rule plus_greedy)
  with False m show ?thesis by simp
qed

lemma digit_not_rparen: "is_digit c \<Longrightarrow> c \<noteq> CHR '')''"
  by (auto simp: is_digit_def)

lemma space_not_lparen: "is_space c \<Longrightarrow> c \<noteq> CHR ''(''"
  by (auto simp: is_space_def)

lemma num_dot_split: "num_dot s = Some (a, r) \<Longrightarrow> s = a @ r"
proof -
  assume h: "num_dot s = Some (a, r)"
  define t where "t = dropWhile is_digit s"
  have s: "s = takeWhile is_digit s @ t" by (simp add: t_def)
  have "num_dot s = (case t of [] \<Rightarrow> None
      | c # r \<Rightarrow> if takeWhile is_digit s \<noteq> [] \<and> c = CHR ''.''
                 then Some (takeWhile is_digit s @ [c], r) else None)"
    unfolding num_dot_def t_def ..
  with h have "t = CHR ''.'' # r" and "a = takeWhile is_digit s @ [CHR ''.'']"
    by (auto split: list.splits if_splits)
  with s show ?thesis by (metis append.assoc append_Cons append_Nil)
qed

lemma rmatch_num_dot:
  "rmatch (Seq (Plus Digit) (Seq (Atom (Lit CHR ''.'')) R)) p s g k =
     (case num_dot s of None \<Rightarrow> None | Some (a, r) \<Rightarrow> rmatch R (p + length a) r g k)"
proof -
  let ?K = "\<lambda>p' s' g'. rmatch (Seq (Atom (Lit CHR ''.'')) R) p' s' g' k"
  define t where "t = dropWhile is_digit s"
  have K: "\<And>p' s' g'. ?K p' s' g' =
     (case s' of [] \<Rightarrow> None | c # r \<Rightarrow> if c = CHR ''.'' then rmatch R (Suc p') r g' k else None)"
    by (simp add: rmatch_Seq[of "Atom _"] rmatch_Atom split: list.splits)
  have fail: "\<And>x xs p' g'. in_class Digit x \<Longrightarrow> ?K p' (x # xs) g' = None"
    by (simp add: K digit_not_dot)
  have "rmatch (Seq (Plus Digit) (Seq (Atom (Lit CHR ''.'')) R)) p s g k = rmatch (Plus Digit) p s g ?K"
    by (simp add: rmatch_Seq[of "Plus _"])
  also have "\<dots> = (if takeWhile (in_class Digit) s = [] then None
      else ?K (p + length (takeWhile (in_class Digit) s)) (dropWhile (in_class Digit) s) g)"
    by (rule plus_munch) (rule fail)
  also have "\<dots> = (if takeWhile is_digit s = [] then None
      else ?K (p + length (takeWhile is_digit s)) t g)"
    by (simp add: in_class_Digit t_def)
  finally have step: "rmatch (Seq (Plus Digit) (Seq (Atom (Lit CHR ''.'')) R)) p s g k =
     (if takeWhile is_digit s = [] then None else ?K (p + length (takeWhile is_digit s)) t g)" .
  have nd: "num_dot s = (case t of [] \<Rightarrow> None
      | c # r \<Rightarrow> if takeWhile is_digit s \<noteq> [] \<and> c = CHR ''.''
                 then Some (takeWhile is_digit s @ [c], r) else None)"
    unfolding num_dot_def t_def ..
  show ?thesis
    unfolding step K nd by (simp split: list.splits)
qed

lemma quad_at_split:
  assumes "quad_at s = Some q"
  obtains r where "s = q @ r" and "r = drop (length q) s"
proof -
  from assms obtain a r1 b r2 c r3 where
    1: "num_dot s = Some (a, r1)" and 2: "num_dot r1 = Some (b, r2)" and
    3: "num_dot r2 = Some (c, r3)" and q: "q = a @ b @ c @ takeWhile is_digit r3"
    by (auto simp: quad_at_def split: option.splits if_splits)
  have "s = q @ dropWhile is_digit r3"
    using num_dot_split[OF 1] num_dot_split[OF 2] num_dot_split[OF 3] q by simp
  then show thesis
    using that by (metis append_eq_conv_conj)
qed

lemma rmatch_dotted_quad:
  assumes last: "\<And>p' s' g'. rmatch (Plus Digit) p' s' g' k =
     (if takeWhile is_digit s' = [] then None
      else k (p' + length (takeWhile is_digit s')) (dropWhile is_digit s') g')"
  shows "rmatch dotted_quad p s g k =
     (case quad_at s of None \<Rightarrow> None | Some q \<Rightarrow> k (p + length q) (drop (length q) s) g)"
proof (cases "quad_at s")
  case None
  then show ?thesis
    unfolding dotted_quad_def rmatch_num_dot last
    by (auto simp: quad_at_def split: option.splits if_splits)
next
  case (Some q)
  then obtain a r1 b r2 c r3 where
    1: "num_dot s = Some (a, r1)" and 2: "num_dot r1 = Some (b, r2)" and
    3: "num_dot r2 = Some (c, r3)" and q: "q = a @ b @ c @ takeWhile is_digit r3"
    and ne: "takeWhile is_digit r3 \<noteq> []"
    by (auto simp: quad_at_def split: option.splits if_splits)
  have "s = q @ dropWhile is_digit r3"
    using num_dot_split[OF 1] num_dot_split[OF 2] num_dot_split[OF 3] q by simp
  then have dr: "drop (length q) s = dropWhile is_digit r3"
    by (metis append_eq_conv_conj)
  have len: "length q = length a + (length b + (length c + length (takeWhile is_digit r3)))"
    unfolding q by simp
  have "rmatch dotted_quad p s g k = k (p + length q) (dropWhile is_digit r3) g"
    unfolding dotted_quad_def rmatch_num_dot last len
    using 1 2 3 ne by (simp add: add.assoc)
  then show ?thesis
    using dr by (simp add: Some)
qed

lemma rmatch_ip_pattern:
  "rmatch ip_pattern p s no_groups accept =
     (case quad_at s of None \<Rightarrow> None | Some q \<Rightarrow> Some (p + length q, no_groups(1 \<mapsto> q)))"
proof -
  let ?K = "\<lambda>p' s' g'. accept p' s' (g'(1 \<mapsto> take (p' - p) s))"
  have last: "\<And>p' s' g'. rmatch (Plus Digit) p' s' g' ?K =
     (if takeWhile is_digit s' = [] then None
      else ?K (p' + length (takeWhile is_digit s')) (dropWhile is_digit s') g')"
    unfolding in_class_Digit[symmetric] by (rule plus_total) (simp add: accept_def)
  have "rmatch ip_pattern p s no_groups accept = rmatch dotted_quad p s no_groups ?K"
    by (simp add: ip_pattern_def rmatch_Group)
  also have "\<dots> = (case quad_at s of None \<Rightarrow> None
                     | Some q \<Rightarrow> ?K (p + length q) (drop (length q) s) no_groups)"
    by (rule rmatch_dotted_quad) (rule last)
  finally show ?thesis
    by (auto simp: accept_def split: option.splits elim!: quad_at_split)
qed

lemma rmatch_paren_quad:
  "rmatch (Seq (Group 2 dotted_quad) (Atom (Lit CHR '')''))) p s g accept =
     (case quad_at s of
        None \<Rightarrow> None
      | Some q \<Rightarrow>
          (case drop (length q) s of
             [] \<Rightarrow> None
           | d # r' \<Rightarrow> if d = CHR '')'' then Some (Suc (p + length q), g(2 \<mapsto> q)) else None))"
proof -
  let ?K = "\<lambda>p' s' g'. rmatch (Atom (Lit CHR '')'')) p' s' (g'(2 \<mapsto> take (p' - p) s)) accept"
  have fail: "\<And>x xs p' g'. in_class Digit x \<Longrightarrow> ?K p' (x # xs) g' = None"
    by (simp add: rmatch_Atom digit_not_rparen)
  have last: "\<And>p' s' g'. rmatch (Plus Digit) p' s' g' ?K =
     (if takeWhile is_digit s' = [] then None
      else ?K (p' + length (takeWhile is_digit s')) (dropWhile is_digit s') g')"
    unfolding in_class_Digit[symmetric] by (rule plus_munch) (rule fail)
  have "rmatch (Seq (Group 2 dotted_quad) (Atom (Lit CHR '')''))) p s g accept =
          rmatch dotted_quad p s g ?K"
    by (simp add: rmatch_Seq[of "Group _ _"] rmatch_Group)
  also have "\<dots> = (case quad_at s of None \<Rightarrow> None
                     | Some q \<Rightarrow> ?K (p + length q) (drop (length q) s) g)"
    by (rule rmatch_dotted_quad) (rule last)
  finally show ?thesis
    by (auto simp: accept_def rmatch_Atom split: option.splits list.splits elim!: quad_at_split)
qed

lemma rmatch_host_tail:
  "rmatch (Seq (Many Space) (Seq (Atom (Lit CHR ''('')) (Seq (Group 2 dotted_quad) (Atom (Lit CHR '')''))))) p s g accept =
     (case dropWhile is_space s of
        [] \<Rightarrow> None
      | c # r \<Rightarrow>
          if c = CHR ''(''
          then rmatch (Seq (Group 2 dotted_quad) (Atom (Lit CHR '')''))) (Suc (p + length (takeWhile is_space s))) r g accept
          else None)"
proof -
  let ?K = "\<lambda>p' s' g'. rmatch (Seq (Atom (Lit CHR ''('')) (Seq (Group 2 dotted_quad) (Atom (Lit CHR '')'')))) p' s' g' accept"
  define t where "t = dropWhile is_space s"
  have K: "\<And>p' s' g'. ?K p' s' g' =
     (case s' of [] \<Rightarrow> None
      | c # r \<Rightarrow> if c = CHR ''('' then rmatch (Seq (Group 2 dotted_quad) (Atom (Lit CHR '')''))) (Suc p') r g' accept else None)"
    by (simp add: rmatch_Seq[of "Atom _"] rmatch_Atom split: list.splits)
  have fail: "\<And>x xs p' g'. in_class Space x \<Longrightarrow> ?K p' (x # xs) g' = None"
    by (simp add: K space_not_lparen)
  have "rmatch (Seq (Many Space) (Seq (Atom (Lit CHR ''('')) (Seq (Group 2 dotted_quad) (Atom (Lit CHR '')''))))) p s g accept
          = many (in_class Space) p s g ?K"
    by (simp add: rmatch_Seq[of "Many _"] rmatch_Many)
  also have "\<dots> = ?K (p + length (takeWhile (in_class Space) s)) (dropWhile (in_class Space) s) g"
    by (rule many_munch) (rule fail)
  also have "\<dots> = ?K (p + length (takeWhile is_space s)) t g"
    by (simp add: in_class_Space t_def)
  finally show ?thesis
    unfolding K t_def[symmetric] by simp
qed

lemma rmatch_host_ip_pattern:
  "map_option snd (rmatch host_ip_pattern p s no_groups accept) =
     map_option (\<lambda>(name, q). no_groups(1 \<mapsto> name, 2 \<mapsto> q)) (composite_at s)"
proof -
  let ?tail = "Seq (Many Space) (Seq (Atom (Lit CHR ''('')) (Seq (Group 2 dotted_quad) (Atom (Lit CHR '')''))))"
  let ?K = "\<lambda>p' s' g'. rmatch ?tail p' s' (g'(1 \<mapsto> take (p' - p) s)) accept"
  define name where "name = takeWhile (in_class NotSpaceLParen) s"
  define u where "u = dropWhile (in_class NotSpaceLParen) s"
  define t where "t = dropWhile is_space u"
  have fail: "\<And>x xs p' g'. in_class NotSpaceLParen x \<Longrightarrow> ?K p' (x # xs) g' = None"
    unfolding rmatch_host_tail by simp
  have "rmatch host_ip_pattern p s no_groups accept = rmatch (Plus NotSpaceLParen) p s no_groups ?K"
    by (simp add: host_ip_pattern_def rmatch_Seq[of "Group _ _"] rmatch_Group)
  also have "\<dots> = (if takeWhile (in_class NotSpaceLParen) s = [] then None
      else ?K (p + length (takeWhile (in_class NotSpaceLParen) s)) (dropWhile (in_class NotSpaceLParen) s) no_groups)"
    by (rule plus_munch) (rule fail)
  also have "\<dots> = (if name = [] then None else rmatch ?tail (p + length name) u (no_groups(1 \<mapsto> name)) accept)"
    by (simp add: name_def u_def takeWhile_eq_take[symmetric])
  finally have step: "rmatch host_ip_pattern p s no_groups accept =
     (if name = [] then None
      else (case t of
              [] \<Rightarrow> None
            | c # r \<Rightarrow>
                if c = CHR ''(''
                then rmatch (Seq (Group 2 dotted_quad) (Atom (Lit CHR '')'')))
                       (Suc (p + length name + length (takeWhile is_space u)))
                       r (no_groups(1 \<mapsto> name)) accept
                else None))"
    unfolding rmatch_host_tail t_def[symmetric] .
  have comp: "composite_at s =
     (if name = [] then None
      else (case t of
              [] \<Rightarrow> None
            | c # r \<Rightarrow>
                if c = CHR ''('' then
                  (case quad_at r of
                     None \<Rightarrow> None
                   | Some q \<Rightarrow>
                       (case drop (length q) r of
                          [] \<Rightarrow> None
                        | d # r' \<Rightarrow> if d = CHR '')'' then Some (name, q) else None))
                else None))"
    unfolding composite_at_def Let_def name_def t_def u_def ..
  show ?thesis
    unfolding step comp rmatch_paren_quad
    by (simp split: list.splits option.splits)
qed

lemma search_find_first:
  assumes "\<And>p s. map_option snd (rmatch r p s no_groups accept) = F s"
  shows "map_option snd (search_from r p s) = find_first F s"
proof (induction s arbitrary: p)
  case Nil
  show ?case using assms[of p "[]"] by simp
next
  case (Cons c cs)
  show ?case
    using assms[of p "c # cs", symmetric] Cons[of "Suc p"]
    by (cases "rmatch r p (c # cs) no_groups accept") auto
qed

lemma find_first_map_option:
  "find_first (\<lambda>s. map_option h (f s)) s = map_option h (find_first f s)"
  by (induction s) (auto split: option.splits)

lemma search_host_ip:
  "map_option snd (re_search host_ip_pattern s) =
     map_option (\<lambda>(name, q). no_groups(1 \<mapsto> name, 2 \<mapsto> q)) (find_first composite_at s)"
  unfolding re_search_def
  using search_find_first[of host_ip_pattern "\<lambda>s. map_option (\<lambda>(name, q). no_groups(1 \<mapsto> name, 2 \<mapsto> q)) (composite_at s)" 0 s]
  by (simp add: rmatch_host_ip_pattern find_first_map_option)

lemma search_ip:
  "map_option snd (re_search ip_pattern s) =
     map_option (\<lambda>q. no_groups(1 \<mapsto> q)) (find_first quad_at s)"
  unfolding re_search_def
  using search_find_first[of ip_pattern "\<lambda>s. map_option (\<lambda>q. no_groups(1 \<mapsto> q)) (quad_at s)" 0 s]
  by (simp add: rmatch_ip_pattern find_first_map_option option.map_comp comp_def split: option.splits)

lemma responder_two_tier: "responder rest = two_tier rest"
proof (cases "find_first composite_at rest")
  case None
  with search_host_ip[of rest] have h: "re_search host_ip_pattern rest = None" by simp
  show ?thesis
  proof (cases "find_first quad_at rest")
    case None
    with search_ip[of rest] have "re_search ip_pattern rest = None" by simp
    with h None \<open>find_first composite_at rest = None\<close> show ?thesis
      by (simp add: responder_def two_tier_def)
  next
    case (Some a)
    with search_ip[of rest] obtain e where "re_search ip_pattern rest = Some (e, no_groups(1 \<mapsto> a))"
      by (cases "re_search ip_pattern rest") auto
    with h Some \<open>find_first composite_at rest = None\<close> show ?thesis
      by (simp add: responder_def two_tier_def)
  qed
next
  case (Some x)
  then obtain name a where x: "find_first composite_at rest = Some (name, a)" by (cases x) auto
  with search_host_ip[of rest] obtain e where
    "re_search host_ip_pattern rest = Some (e, no_groups(1 \<mapsto> name, 2 \<mapsto> a))"
    by (cases "re_search host_ip_pattern rest") auto
  with x show ?thesis
    by (simp add: responder_def two_tier_def)
qed

section \<open>The loop over the lines\<close>

lemma parse_loop_append:
  "parse_loop (xs @ ys) hops =
     (case parse_loop xs hops of Inl err \<Rightarrow> Inl err | Inr hops' \<Rightarrow> parse_loop ys hops')"
  by (induction xs arbitrary: hops) (auto split: sum.splits option.splits)

lemma set_strip: "set (strip l) \<subseteq> set l"
  unfolding strip_def by (auto dest!: set_dropWhileD)

lemma digit_not_newline: "is_digit c \<Longrightarrow> c \<noteq> newline"
  by (auto simp: is_digit_def newline_def)

lemma split_aux_no_newline:
  "newline \<notin> set cur \<Longrightarrow> l \<in> set (split_aux cur s) \<Longrightarrow> newline \<notin> set l"
  by (induction cur s rule: split_aux.induct) (auto split: if_splits)

lemma split_lines_no_newline: "l \<in> set (split_lines s) \<Longrightarrow> newline \<notin> set l"
  unfolding split_lines_def using split_aux_no_newline[of "[]"] by simp

lemma hop_prefix_digits:
  assumes "hop_prefix t = Some (ds, rest)"
  shows "ds \<noteq> []" and "list_all is_digit ds"
  using assms by (auto simp: hop_prefix_def Let_def list_all_iff split: if_splits dest: set_takeWhileD)

lemma hop_of_line_eq:
  assumes "newline \<notin> set l"
  shows "hop_of_line l =
     (if is_hop_line l
      then if int_max_str_digits < length (hop_digits l) then Inl ValueError
           else Inr (Some (line_record l))
      else Inr None)"
proof -
  have nl: "newline \<notin> set (strip l)"
    using assms set_strip by blast
  show ?thesis
  proof (cases "hop_prefix (strip l)")
    case None
    then show ?thesis
      by (simp add: hop_of_line_def Let_def re_match_hop_line[OF nl] is_hop_line_def)
  next
    case (Some a)
    then obtain ds rest where a: "hop_prefix (strip l) = Some (ds, rest)" by (cases a) auto
    from hop_prefix_digits[OF a] have ds: "ds \<noteq> []" "list_all is_digit ds" .
    have ne: "strip l \<noteq> []"
      using a by (auto simp: hop_prefix_def)
    show ?thesis
      using a ds ne
      by (simp add: hop_of_line_def Let_def re_match_hop_line[OF nl] is_hop_line_def
            hop_digits_def payload_def py_int_def rtt_of_payload line_record_def
            split: prod.splits)
  qed
qed

lemma parse_loop_ok:
  assumes "\<forall>l\<in>set ls. newline \<notin> set l"
    and "\<forall>l\<in>set ls. is_hop_line l \<longrightarrow> length (hop_digits l) \<le> int_max_str_digits"
  shows "parse_loop ls hops = Inr (hops @ map line_record (filter is_hop_line ls))"
  using assms
  by (induction ls arbitrary: hops) (auto simp: hop_of_line_eq)

lemma parse_loop_raises:
  assumes "\<forall>l\<in>set ls. newline \<notin> set l"
    and "\<exists>l\<in>set ls. is_hop_line l \<and> int_max_str_digits < length (hop_digits l)"
  shows "parse_loop ls hops = Inl ValueError"
  using assms
proof (induction ls arbitrary: hops)
  case Nil
  then show ?case by simp
next
  case (Cons l ls)
  show ?case
  proof (cases "is_hop_line l \<and> int_max_str_digits < length (hop_digits l)")
    case True
    with Cons.prems(1) show ?thesis by (simp add: hop_of_line_eq)
  next
    case False
    with Cons.prems have ex: "\<exists>l\<in>set ls. is_hop_line l \<and> int_max_str_digits < length (hop_digits l)"
      by auto
    from Cons.prems(1) have nl: "\<forall>l\<in>set ls. newline \<notin> set l" by simp
    from Cons.IH[OF nl ex] Cons.prems(1) False show ?thesis
      by (auto simp: hop_of_line_eq)
  qed
qed

lemma parse_traceroute_eq:
  "parse_traceroute s =
     (if \<forall>l\<in>set (split_lines s). is_hop_line l \<longrightarrow> length (hop_digits l) \<le> int_max_str_digits
      then Inr (map line_record (filter is_hop_line (split_lines s)))
      else Inl ValueError)"
proof (cases "\<forall>l\<in>set (split_lines s). is_hop_line l \<longrightarrow> length (hop_digits l) \<le> int_max_str_digits")
  case True
  with parse_loop_ok[of "split_lines s" "[]"] split_lines_no_newline show ?thesis
    by (simp add: parse_traceroute_def)
next
  case False
  then have "\<exists>l\<in>set (split_lines s). is_hop_line l \<and> int_max_str_digits < length (hop_digits l)"
    by (auto simp: not_le)
  with parse_loop_raises[of "split_lines s" "[]"] split_lines_no_newline False show ?thesis
    by (simp add: parse_traceroute_def)
qed

section \<open>Facts about the records\<close>

lemma decimal_val_nonneg_aux:
  "\<forall>c\<in>set s. is_digit c \<Longrightarrow> 0 \<le> a \<Longrightarrow> 0 \<le> foldl (\<lambda>a c. 10 * a + digit_val c) a s"
proof (induction s arbitrary: a)
  case Nil
  then show ?case by simp
next
  case (Cons c s)
  have "0 \<le> digit_val c"
    using Cons.prems(1) by (simp add: digit_val_def is_digit_def Let_def)
  with Cons.prems(2) have "0 \<le> 10 * a + digit_val c" by simp
  with Cons show ?case by simp
qed

lemma decimal_val_nonneg: "\<forall>c\<in>set s. is_digit c \<Longrightarrow> 0 \<le> decimal_val s"
  unfolding decimal_val_def by (rule decimal_val_nonneg_aux) simp_all







lemma hop_digits_are_digits: "\<forall>c\<in>set (hop_digits l). is_digit c"
  by (auto simp: hop_digits_def hop_prefix_def Let_def split: option.splits if_splits dest: set_takeWhileD)

lemma split_on_digits:
  assumes "\<forall>x\<in>set ds. is_digit x"
  shows "split_on CHR ''.'' cur (ds @ CHR ''.'' # rest) = (cur @ ds) # split_on CHR ''.'' [] rest"
    and "split_on CHR ''.'' cur ds = [cur @ ds]"
  using assms by (induction ds arbitrary: cur) (auto simp: digit_not_dot)

lemma num_dot_digits:
  assumes "num_dot s = Some (a, r)"
  obtains ds where "a = ds @ [CHR ''.'']" and "ds \<noteq> []" and "\<forall>x\<in>set ds. is_digit x"
proof -
  define t where "t = dropWhile is_digit s"
  have "num_dot s = (case t of [] \<Rightarrow> None
      | c # r \<Rightarrow> if takeWhile is_digit s \<noteq> [] \<and> c = CHR ''.''
                 then Some (takeWhile is_digit s @ [c], r) else None)"
    unfolding num_dot_def t_def ..
  with assms have "a = takeWhile is_digit s @ [CHR ''.'']" and "takeWhile is_digit s \<noteq> []"
    by (auto split: list.splits if_splits)
  moreover have "\<forall>x\<in>set (takeWhile is_digit s). is_digit x"
    by (auto dest: set_takeWhileD)
  ultimately show thesis using that by blast
qed

lemma quad_at_is_dotted_quad:
  assumes "quad_at s = Some q"
  shows "is_dotted_quad q"
proof -
  from assms obtain a r1 b r2 c r3 where
    1: "num_dot s = Some (a, r1)" and 2: "num_dot r1 = Some (b, r2)" and
    3: "num_dot r2 = Some (c, r3)" and q: "q = a @ b @ c @ takeWhile is_digit r3"
    and ne: "takeWhile is_digit r3 \<noteq> []"
    by (auto simp: quad_at_def split: option.splits if_splits)
  from num_dot_digits[OF 1] obtain da where da: "a = da @ [CHR ''.'']" "da \<noteq> []" "\<forall>x\<in>set da. is_digit x" .
  from num_dot_digits[OF 2] obtain db where db: "b = db @ [CHR ''.'']" "db \<noteq> []" "\<forall>x\<in>set db. is_digit x" .
  from num_dot_digits[OF 3] obtain dc where dc: "c = dc @ [CHR ''.'']" "dc \<noteq> []" "\<forall>x\<in>set dc. is_digit x" .
  define dd where "dd = takeWhile is_digit r3"
  have dd: "dd \<noteq> []" "\<forall>x\<in>set dd. is_digit x"
    using ne by (auto simp: dd_def dest: set_takeWhileD)
  have "q = da @ CHR ''.'' # db @ CHR ''.'' # dc @ CHR ''.'' # dd"
    unfolding q da db dc dd_def by simp
  then have "split_on CHR ''.'' [] q = [da, db, dc, dd]"
    using da(3) db(3) dc(3) dd(2) by (simp add: split_on_digits)
  then show ?thesis
    using da db dc dd by (simp add: is_dotted_quad_def list_all_iff)
qed

lemma find_first_Some: "find_first f s = Some x \<Longrightarrow> \<exists>s'. f s' = Some x"
  by (induction s) (auto split: option.splits)

lemma composite_at_quad:
  assumes "composite_at s = Some (name, q)"
  shows "is_dotted_quad q"
proof -
  define t where "t = dropWhile is_space (dropWhile (in_class NotSpaceLParen) s)"
  have "composite_at s =
     (if takeWhile (in_class NotSpaceLParen) s = [] then None
      else (case t of
              [] \<Rightarrow> None
            | c # r \<Rightarrow>
                if c = CHR ''('' then
                  (case quad_at r of
                     None \<Rightarrow> None
                   | Some q \<Rightarrow>
                       (case drop (length q) r of
                          [] \<Rightarrow> None
                        | d # r' \<Rightarrow>
                            if d = CHR '')'' then Some (takeWhile (in_class NotSpaceLParen) s, q)
                            else None))
                else None))"
    unfolding composite_at_def Let_def t_def ..
  with assms obtain r where "quad_at r = Some q"
    by (cases t) (auto split: if_splits option.splits list.splits)
  then show ?thesis by (rule quad_at_is_dotted_quad)
qed

lemma two_tier_ip_quad:
  assumes "fst (two_tier rest) = Some a"
  shows "is_dotted_quad a"
proof (cases "find_first composite_at rest")
  case None
  with assms have "find_first quad_at rest = Some a"
    by (auto simp: two_tier_def split: option.splits)
  from find_first_Some[OF this] obtain s' where "quad_at s' = Some a" ..
  then show ?thesis by (rule quad_at_is_dotted_quad)
next
  case (Some x)
  with assms obtain name where "find_first composite_at rest = Some (name, a)"
    by (cases x) (auto simp: two_tier_def)
  from find_first_Some[OF this] obtain s' where "composite_at s' = Some (name, a)" ..
  then show ?thesis by (rule composite_at_quad)
qed

lemma two_tier_hostname:
  "snd (two_tier rest) \<noteq> None \<Longrightarrow> fst (two_tier rest) \<noteq> None \<and> snd (two_tier rest) \<noteq> fst (two_tier rest)"
  by (auto simp: two_tier_def split: option.splits if_splits)

lemma parse_traceroute_Inr:
  assumes "parse_traceroute s = Inr hops"
  shows "hops = map line_record (filter is_hop_line (split_lines s))"
  using assms unfolding parse_traceroute_eq by (simp split: if_splits)

lemma split_lines_single: "newline \<notin> set s \<Longrightarrow> split_aux cur s = [cur @ s]"
  by (induction s arbitrary: cur) auto

lemma strip_id:
  assumes "s \<noteq> []" and "\<not> is_space (hd s)" and "\<not> is_space (last s)"
  shows "strip s = s"
proof -
  from assms have 1: "dropWhile is_space s = s" by (cases s) auto
  from assms have "rev s \<noteq> []" and "\<not> is_space (hd (rev s))" by (simp_all add: hd_rev)
  then have "dropWhile is_space (rev s) = rev s" by (cases "rev s") auto
  with 1 show ?thesis by (simp add: strip_def)
qed

lemma long_hop_raises:
  assumes "ds \<noteq> []" and "\<forall>c\<in>set ds. is_digit c" and "int_max_str_digits < length ds"
  shows "parse_traceroute (ds @ '' x'') = Inl ValueError"
proof -
  let ?l = "ds @ '' x''"
  have nl: "newline \<notin> set ?l"
    using assms(2) digit_not_newline by (auto simp: newline_def)
  then have lines: "split_lines ?l = [?l]"
    unfolding split_lines_def using split_lines_single[of ?l "[]"] by simp
  have "\<not> is_space (hd ?l)"
    using assms(1,2) by (cases ds) (auto simp: digit_not_space)
  moreover have "\<not> is_space (last ?l)" by (simp add: is_space_def)
  ultimately have st: "strip ?l = ?l" by (intro strip_id) simp_all
  have sp: "is_space CHR '' ''" "\<not> is_digit CHR '' ''" "\<not> is_space CHR ''x''"
    by (simp_all add: is_space_def is_digit_def)
  have tw: "takeWhile is_digit ?l = ds" and dw: "dropWhile is_digit ?l = '' x''"
    using assms(2) sp by simp_all
  have hp: "hop_prefix ?l = Some (ds, ''x'')"
    unfolding hop_prefix_def Let_def tw dw using assms(1) sp by simp
  have "is_hop_line ?l" and "hop_digits ?l = ds"
    unfolding is_hop_line_def hop_digits_def st hp by simp_all
  with assms(3) lines show ?thesis
    unfolding parse_traceroute_eq by simp
qed

lemma is_hop_line_iff:
  "is_hop_line l \<longleftrightarrow>
     (\<exists>ds ws rest. strip l = ds @ ws @ rest \<and> ds \<noteq> [] \<and> (\<forall>c\<in>set ds. is_digit c) \<and>
                   ws \<noteq> [] \<and> (\<forall>c\<in>set ws. is_space c))"
proof
  assume "is_hop_line l"
  then have ds: "takeWhile is_digit (strip l) \<noteq> []"
    and ws: "takeWhile is_space (dropWhile is_digit (strip l)) \<noteq> []"
    by (auto simp: is_hop_line_def hop_prefix_def Let_def split: if_splits)
  have "strip l = takeWhile is_digit (strip l) @ takeWhile is_space (dropWhile is_digit (strip l))
                  @ dropWhile is_space (dropWhile is_digit (strip l))"
    by simp
  moreover have "\<forall>c\<in>set (takeWhile is_digit (strip l)). is_digit c"
    and "\<forall>c\<in>set (takeWhile is_space (dropWhile is_digit (strip l))). is_space c"
    by (auto dest: set_takeWhileD)
  ultimately show "\<exists>ds ws rest. strip l = ds @ ws @ rest \<and> ds \<noteq> [] \<and> (\<forall>c\<in>set ds. is_digit c) \<and>
                   ws \<noteq> [] \<and> (\<forall>c\<in>set ws. is_space c)"
    using ds ws by blast
next
  assume "\<exists>ds ws rest. strip l = ds @ ws @ rest \<and> ds \<noteq> [] \<and> (\<forall>c\<in>set ds. is_digit c) \<and>
                   ws \<noteq> [] \<and> (\<forall>c\<in>set ws. is_space c)"
  then obtain ds ws rest where s: "strip l = ds @ ws @ rest" and ds: "ds \<noteq> []" "\<forall>c\<in>set ds. is_digit c"
    and ws: "ws \<noteq> []" "\<forall>c\<in>set ws. is_space c" by blast
  from ws obtain w ws' where w: "ws = w # ws'" "is_space w" by (cases ws) auto
  then have nd: "\<not> is_digit w" using digit_not_space by blast
  have tw: "takeWhile is_digit (strip l) = ds"
    unfolding s w using ds(2) nd by simp
  have dw: "dropWhile is_digit (strip l) = w # ws' @ rest"
    unfolding s w using ds(2) nd by simp
  show "is_hop_line l"
    unfolding is_hop_line_def hop_prefix_def Let_def tw dw using ds(1) w(2) by simp
qed

section \<open>\<^verbatim>\<open>execute_traceroute\<close>: the output of a failed run\<close>

text \<open>
  Claim C9. When the trace tool ends with a non-zero status, \<^verbatim>\<open>execute_traceroute\<close>
  returns the captured standard output followed by the captured standard error, a
  newline between them, so that no text is lost; when the status is zero it returns
  the standard output.
\<close>

theorem execute_traceroute_keeps_output:
  assumes "run [''traceroute'', destination] = Inr result"
  shows "execute_traceroute run destination =
           Inr (if returncode result = 0 then stdout result
                else stdout result @ [newline] @ stderr result)"
  using assms by (simp add: execute_traceroute_def)

theorem execute_traceroute_keeps_output_witness:
  "execute_traceroute
     (\<lambda>args. Inr \<lparr>returncode = 1, stdout = ''1  * * *'', stderr = ''failed''\<rparr>) ''example.org''
   = Inr (''1  * * *'' @ [newline] @ ''failed'')"
  using execute_traceroute_keeps_output
    [of "\<lambda>args. Inr \<lparr>returncode = 1, stdout = ''1  * * *'', stderr = ''failed''\<rparr>"
        "''example.org''" "\<lparr>returncode = 1, stdout = ''1  * * *'', stderr = ''failed''\<rparr>"]
  by simp

section \<open>Lines that hold a number and nothing else\<close>

text \<open>
  Claim C10. A line whose trimmed form is an integer and nothing else, such as
  \<^verbatim>\<open>7\<close> or \<^verbatim>\<open>7\<close> followed by blanks, yields no record: the loop skips it, and the
  records are those of the other lines.
\<close>

theorem bare_number_line_skipped:
  assumes "strip l \<noteq> []" and "\<forall>c\<in>set (strip l). is_digit c"
  shows "hop_of_line l = Inr None \<and> parse_loop (xs @ l # ys) hops = parse_loop (xs @ ys) hops"
proof -
  have nl: "newline \<notin> set (strip l)"
    using assms(2) digit_not_newline by blast
  have "dropWhile is_digit (strip l) = []"
    using assms(2) by simp
  then have "takeWhile is_space (dropWhile is_digit (strip l)) = []"
    by (simp only: takeWhile.simps)
  then have "hop_prefix (strip l) = None"
    by (simp add: hop_prefix_def Let_def)
  then have skip: "hop_of_line l = Inr None"
    by (simp add: hop_of_line_def Let_def re_match_hop_line[OF nl])
  then show ?thesis
    by (simp add: parse_loop_append split: sum.splits)
qed

theorem bare_number_line_skipped_witness:
  "hop_of_line ''7   '' = Inr None \<and>
   parse_loop ([''1  * * *''] @ ''7   '' # [''2  * * *'']) [] =
   parse_loop ([''1  * * *''] @ [''2  * * *'']) []"
  using bare_number_line_skipped [of "''7   ''" "[''1  * * *'']" "[''2  * * *'']" "[]"]
  by (simp add: strip_def is_space_def is_digit_def)

section \<open>One record for each hop line\<close>

text \<open>
  Claim C1. When \<^verbatim>\<open>parse_traceroute\<close> returns, the number of records equals the number
  of input lines whose trimmed form has the hop-number prefix: digits at the start,
  then white space, then the payload. Each such line yields one record, in the order
  of the lines and with the line's number as its hop, whatever the searches for the
  responder and the timings find; no other line yields a record.
\<close>

theorem record_per_hop_line:
  assumes "parse_traceroute s = Inr hops"
  shows "length hops = length (filter is_hop_line (split_lines s)) \<and>
         map hop hops = map (\<lambda>l. decimal_val (hop_digits l)) (filter is_hop_line (split_lines s))"
  unfolding parse_traceroute_Inr[OF assms] by (simp add: line_record_def comp_def)

theorem record_per_hop_line_witness:
  "parse_traceroute (''traceroute to example'' @ [newline] @ ''1  * * *'' @ [newline] @ ''   '' @
                     [newline] @ ''2  ???'')
     = Inr [\<lparr>hop = 1, ip = None, hostname = None, rtt = [None, None, None]\<rparr>,
            \<lparr>hop = 2, ip = None, hostname = None, rtt = []\<rparr>] \<and>
   length [\<lparr>hop = 1, ip = None, hostname = None, rtt = [None, None, None]\<rparr>,
           \<lparr>hop = 2, ip = None, hostname = None, rtt = []\<rparr>]
     = length (filter is_hop_line (split_lines
         (''traceroute to example'' @ [newline] @ ''1  * * *'' @ [newline] @ ''   '' @
          [newline] @ ''2  ???'')))"
proof -
  have h: "parse_traceroute (''traceroute to example'' @ [newline] @ ''1  * * *'' @ [newline] @ ''   '' @
                     [newline] @ ''2  ???'')
     = Inr [\<lparr>hop = 1, ip = None, hostname = None, rtt = [None, None, None]\<rparr>,
            \<lparr>hop = 2, ip = None, hostname = None, rtt = []\<rparr>]"
    by code_simp
  from record_per_hop_line[OF h] h show ?thesis by blast
qed

section \<open>The latencies of a record\<close>




text \<open>
  The hop number is not part of the payload: on the line \<^verbatim>\<open>5 ms\<close> the number is the
  hop, and the record has no latency.
\<close>

lemma hop_number_is_no_latency:
  "parse_traceroute ''5 ms'' = Inr [\<lparr>hop = 5, ip = None, hostname = None, rtt = []\<rparr>]"
  by code_simp

section \<open>The responder of a record\<close>

text \<open>
  Claim C3, amended. The responder is found in two tiers. The first searches the
  payload for a token of characters that are neither white space nor an opening
  parenthesis (a closing parenthesis may be among them), followed, after optional
  white space, by a dotted-quad address in parentheses; when there is one, \<^verbatim>\<open>ip\<close> is
  the address in the parentheses. The second tier is consulted only when the first
  finds nothing: it searches for a bare dotted-quad address and sets \<^verbatim>\<open>ip\<close> to it,
  with \<^verbatim>\<open>hostname\<close> absent. When neither finds anything, both fields are absent.
\<close>

theorem responder_tiers:
  assumes "parse_traceroute s = Inr hops"
  shows "list_all2
           (\<lambda>l h. case find_first composite_at (payload l) of
                     Some (name, a) \<Rightarrow> ip h = Some a
                   | None \<Rightarrow>
                       (case find_first quad_at (payload l) of
                          Some a \<Rightarrow> ip h = Some a \<and> hostname h = None
                        | None \<Rightarrow> ip h = None \<and> hostname h = None))
           (filter is_hop_line (split_lines s)) hops"
  unfolding parse_traceroute_Inr[OF assms] list_all2_map2
  by (rule list_all2_refl)
     (simp add: line_record_def responder_two_tier two_tier_def split: option.splits)

theorem responder_tiers_witness:
  "parse_traceroute (''1  gw (10.0.0.1)  1.0 ms'' @ [newline] @ ''2  10.0.0.2  2.0 ms'' @ [newline] @ ''3  * * *'')
     = Inr [\<lparr>hop = 1, ip = Some ''10.0.0.1'', hostname = Some ''gw'', rtt = [Some (Finite 1)]\<rparr>,
            \<lparr>hop = 2, ip = Some ''10.0.0.2'', hostname = None, rtt = [Some (Finite 2)]\<rparr>,
            \<lparr>hop = 3, ip = None, hostname = None, rtt = [None, None, None]\<rparr>] \<and>
   list_all2
     (\<lambda>l h. case find_first composite_at (payload l) of
               Some (name, a) \<Rightarrow> ip h = Some a
             | None \<Rightarrow>
                 (case find_first quad_at (payload l) of
                    Some a \<Rightarrow> ip h = Some a \<and> hostname h = None
                  | None \<Rightarrow> ip h = None \<and> hostname h = None))
     (filter is_hop_line (split_lines
        (''1  gw (10.0.0.1)  1.0 ms'' @ [newline] @ ''2  10.0.0.2  2.0 ms'' @ [newline] @ ''3  * * *'')))
     [\<lparr>hop = 1, ip = Some ''10.0.0.1'', hostname = Some ''gw'', rtt = [Some (Finite 1)]\<rparr>,
      \<lparr>hop = 2, ip = Some ''10.0.0.2'', hostname = None, rtt = [Some (Finite 2)]\<rparr>,
      \<lparr>hop = 3, ip = None, hostname = None, rtt = [None, None, None]\<rparr>]"
proof -
  have h: "parse_traceroute (''1  gw (10.0.0.1)  1.0 ms'' @ [newline] @ ''2  10.0.0.2  2.0 ms'' @ [newline] @ ''3  * * *'')
     = Inr [\<lparr>hop = 1, ip = Some ''10.0.0.1'', hostname = Some ''gw'', rtt = [Some (Finite 1)]\<rparr>,
            \<lparr>hop = 2, ip = Some ''10.0.0.2'', hostname = None, rtt = [Some (Finite 2)]\<rparr>,
            \<lparr>hop = 3, ip = None, hostname = None, rtt = [None, None, None]\<rparr>]"
    by code_simp
  from responder_tiers[OF h] h show ?thesis by blast
qed

text \<open>
  The claim as the specification states it takes the token to hold no parenthesis. The
  class \<^verbatim>\<open>[^\s\(]\<close> leaves out the opening parenthesis only. In the payload
  \<^verbatim>\<open>(1.2.3.4) (5.6.7.8)\<close> no token without a parenthesis stands before a parenthesized
  address, so that by the claim the second tier gives the first bare address and no
  name; the code takes \<^verbatim>\<open>1.2.3.4)\<close> as the token of the second address.
\<close>

theorem closing_parenthesis_token_counterexample:
  "parse_traceroute ''1  (1.2.3.4) (5.6.7.8)''
     = Inr [\<lparr>hop = 1, ip = Some ''5.6.7.8'', hostname = Some ''1.2.3.4)'', rtt = []\<rparr>] \<and>
   find_first claimed_composite_at (payload ''1  (1.2.3.4) (5.6.7.8)'') = None \<and>
   find_first quad_at (payload ''1  (1.2.3.4) (5.6.7.8)'') = Some ''1.2.3.4''"
  by code_simp

text \<open>
  Claim C4. When the token of the first tier is the same text as the address in the
  parentheses, the record's \<^verbatim>\<open>hostname\<close> is absent and its \<^verbatim>\<open>ip\<close> is the address; a
  \<^verbatim>\<open>hostname\<close> is present only when it differs from \<^verbatim>\<open>ip\<close>.
\<close>

theorem hostname_only_when_distinct:
  assumes "parse_traceroute s = Inr hops"
  shows "list_all2
           (\<lambda>l h. (case find_first composite_at (payload l) of
                      Some (name, a) \<Rightarrow>
                        ip h = Some a \<and> hostname h = (if name = a then None else Some name)
                    | None \<Rightarrow> hostname h = None) \<and>
                   (hostname h \<noteq> None \<longrightarrow> hostname h \<noteq> ip h))
           (filter is_hop_line (split_lines s)) hops"
  unfolding parse_traceroute_Inr[OF assms] list_all2_map2
  by (rule list_all2_refl)
     (simp add: line_record_def responder_two_tier two_tier_def split: option.splits)

theorem hostname_only_when_distinct_witness:
  "parse_traceroute (''4  10.0.0.1 (10.0.0.1)  1.0 ms'' @ [newline] @ ''5  gw (10.0.0.5)  2.0 ms'')
     = Inr [\<lparr>hop = 4, ip = Some ''10.0.0.1'', hostname = None, rtt = [Some (Finite 1)]\<rparr>,
            \<lparr>hop = 5, ip = Some ''10.0.0.5'', hostname = Some ''gw'', rtt = [Some (Finite 2)]\<rparr>] \<and>
   list_all2
     (\<lambda>l h. (case find_first composite_at (payload l) of
                Some (name, a) \<Rightarrow>
                  ip h = Some a \<and> hostname h = (if name = a then None else Some name)
              | None \<Rightarrow> hostname h = None) \<and>
             (hostname h \<noteq> None \<longrightarrow> hostname h \<noteq> ip h))
     (filter is_hop_line (split_lines
        (''4  10.0.0.1 (10.0.0.1)  1.0 ms'' @ [newline] @ ''5  gw (10.0.0.5)  2.0 ms'')))
     [\<lparr>hop = 4, ip = Some ''10.0.0.1'', hostname = None, rtt = [Some (Finite 1)]\<rparr>,
      \<lparr>hop = 5, ip = Some ''10.0.0.5'', hostname = Some ''gw'', rtt = [Some (Finite 2)]\<rparr>]"
proof -
  have h: "parse_traceroute (''4  10.0.0.1 (10.0.0.1)  1.0 ms'' @ [newline] @ ''5  gw (10.0.0.5)  2.0 ms'')
     = Inr [\<lparr>hop = 4, ip = Some ''10.0.0.1'', hostname = None, rtt = [Some (Finite 1)]\<rparr>,
            \<lparr>hop = 5, ip = Some ''10.0.0.5'', hostname = Some ''gw'', rtt = [Some (Finite 2)]\<rparr>]"
    by code_simp
  from hostname_only_when_distinct[OF h] h show ?thesis by blast
qed

text \<open>
  Claim C6. In every record that \<^verbatim>\<open>parse_traceroute\<close> returns, a present \<^verbatim>\<open>hostname\<close>
  comes with a present \<^verbatim>\<open>ip\<close>.
\<close>

theorem hostname_implies_ip:
  assumes "parse_traceroute s = Inr hops" and "h \<in> set hops" and "hostname h \<noteq> None"
  shows "ip h \<noteq> None"
proof -
  from assms(1,2) obtain l where "h = line_record l"
    unfolding parse_traceroute_Inr[OF assms(1)] by auto
  with assms(3) two_tier_hostname[of "payload l"] show ?thesis
    by (simp add: line_record_def responder_two_tier)
qed

theorem hostname_implies_ip_witness:
  "parse_traceroute ''1  _gateway (192.168.1.1)  1.235 ms''
     = Inr [\<lparr>hop = 1, ip = Some ''192.168.1.1'', hostname = Some ''_gateway'', rtt = [Some (Finite (5561945539802563 / 4503599627370496))]\<rparr>] \<and>
   ip \<lparr>hop = 1, ip = Some ''192.168.1.1'', hostname = Some ''_gateway'', rtt = [Some (Finite (5561945539802563 / 4503599627370496))]\<rparr> \<noteq> None"
proof -
  have h: "parse_traceroute ''1  _gateway (192.168.1.1)  1.235 ms''
     = Inr [\<lparr>hop = 1, ip = Some ''192.168.1.1'', hostname = Some ''_gateway'', rtt = [Some (Finite (5561945539802563 / 4503599627370496))]\<rparr>]"
    by code_simp
  from hostname_implies_ip[OF h,
      of "\<lparr>hop = 1, ip = Some ''192.168.1.1'', hostname = Some ''_gateway'', rtt = [Some (Finite (5561945539802563 / 4503599627370496))]\<rparr>"] h
  show ?thesis by simp
qed

text \<open>
  Claim C8. In every record that \<^verbatim>\<open>parse_traceroute\<close> returns, a present \<^verbatim>\<open>ip\<close> is a
  text of exactly four groups of digits separated by dots, from whichever tier it
  comes. The groups are not checked against the range 0 to 255.
\<close>

theorem ip_is_dotted_quad:
  assumes "parse_traceroute s = Inr hops" and "h \<in> set hops" and "ip h = Some a"
  shows "is_dotted_quad a"
proof -
  from assms(1,2) obtain l where "h = line_record l"
    unfolding parse_traceroute_Inr[OF assms(1)] by auto
  with assms(3) have "fst (two_tier (payload l)) = Some a"
    by (simp add: line_record_def responder_two_tier)
  then show ?thesis by (rule two_tier_ip_quad)
qed

theorem ip_is_dotted_quad_witness:
  "parse_traceroute (''1  gw (999.300.1.1)  1.0 ms'' @ [newline] @ ''2  10.0.0.2  2.0 ms'')
     = Inr [\<lparr>hop = 1, ip = Some ''999.300.1.1'', hostname = Some ''gw'', rtt = [Some (Finite 1)]\<rparr>,
            \<lparr>hop = 2, ip = Some ''10.0.0.2'', hostname = None, rtt = [Some (Finite 2)]\<rparr>] \<and>
   is_dotted_quad ''999.300.1.1'' \<and> is_dotted_quad ''10.0.0.2''"
proof -
  have h: "parse_traceroute (''1  gw (999.300.1.1)  1.0 ms'' @ [newline] @ ''2  10.0.0.2  2.0 ms'')
     = Inr [\<lparr>hop = 1, ip = Some ''999.300.1.1'', hostname = Some ''gw'', rtt = [Some (Finite 1)]\<rparr>,
            \<lparr>hop = 2, ip = Some ''10.0.0.2'', hostname = None, rtt = [Some (Finite 2)]\<rparr>]"
    by code_simp
  from ip_is_dotted_quad[OF h, of "\<lparr>hop = 1, ip = Some ''999.300.1.1'', hostname = Some ''gw'', rtt = [Some (Finite 1)]\<rparr>" "''999.300.1.1''"]
       ip_is_dotted_quad[OF h, of "\<lparr>hop = 2, ip = Some ''10.0.0.2'', hostname = None, rtt = [Some (Finite 2)]\<rparr>" "''10.0.0.2''"] h
  show ?thesis by simp
qed

section \<open>The hop number\<close>

text \<open>
  Claim C7, amended. In every record that \<^verbatim>\<open>parse_traceroute\<close> returns, the \<^verbatim>\<open>hop\<close>
  field is an integer that is not negative: the value of the digits at the start of
  the line.
\<close>

theorem hop_nonnegative:
  assumes "parse_traceroute s = Inr hops" and "h \<in> set hops"
  shows "0 \<le> hop h"
proof -
  from assms(2) obtain l where "h = line_record l"
    unfolding parse_traceroute_Inr[OF assms(1)] by auto
  then have "hop h = decimal_val (hop_digits l)"
    by (simp add: line_record_def)
  with decimal_val_nonneg[OF hop_digits_are_digits, of l] show ?thesis by simp
qed

theorem hop_nonnegative_witness:
  "parse_traceroute ''0 x'' = Inr [\<lparr>hop = 0, ip = None, hostname = None, rtt = []\<rparr>] \<and>
   0 \<le> hop \<lparr>hop = 0, ip = None, hostname = None, rtt = []\<rparr>"
proof -
  have h: "parse_traceroute ''0 x'' = Inr [\<lparr>hop = 0, ip = None, hostname = None, rtt = []\<rparr>]"
    by code_simp
  from hop_nonnegative[OF h, of "\<lparr>hop = 0, ip = None, hostname = None, rtt = []\<rparr>"] h
  show ?thesis by simp
qed

text \<open>
  The claim as the specification states it asks for a hop of at least 1. The pattern
  \<^verbatim>\<open>\d+\<close> also takes the digit \<^verbatim>\<open>0\<close>, and the line \<^verbatim>\<open>0 x\<close> yields a record with hop 0.
\<close>

theorem hop_zero_counterexample:
  "parse_traceroute ''0 x'' = Inr [\<lparr>hop = 0, ip = None, hostname = None, rtt = []\<rparr>] \<and>
   \<not> 1 \<le> hop \<lparr>hop = 0, ip = None, hostname = None, rtt = []\<rparr>"
  by code_simp

section \<open>When \<^verbatim>\<open>parse_traceroute\<close> returns\<close>

text \<open>
  Claim C5, amended. \<^verbatim>\<open>parse_traceroute\<close> returns a list, without raising, for every
  input in which no hop line has a hop number of more digits than the interpreter
  converts (\<^verbatim>\<open>sys.int_max_str_digits\<close>, 4300 by default). The empty text, garbage and
  text without hop lines are such inputs. The list holds the records of the hop lines;
  every other line is skipped silently.
\<close>

theorem parse_traceroute_total_within_limit:
  assumes "\<forall>l\<in>set (split_lines s). is_hop_line l \<longrightarrow> length (hop_digits l) \<le> int_max_str_digits"
  shows "parse_traceroute s = Inr (map line_record (filter is_hop_line (split_lines s)))"
  using assms unfolding parse_traceroute_eq by simp

theorem parse_traceroute_total_within_limit_witness:
  "parse_traceroute (''traceroute to example, 30 hops max'' @ [newline] @
                     ''1  gw (10.0.0.1)  1.0 ms'' @ [newline] @ [newline] @ ''0042  * * *'')
     = Inr [\<lparr>hop = 1, ip = Some ''10.0.0.1'', hostname = Some ''gw'', rtt = [Some (Finite 1)]\<rparr>,
            \<lparr>hop = 42, ip = None, hostname = None, rtt = [None, None, None]\<rparr>]"
proof -
  let ?s = "''traceroute to example, 30 hops max'' @ [newline] @
            ''1  gw (10.0.0.1)  1.0 ms'' @ [newline] @ [newline] @ ''0042  * * *''"
  have within: "\<forall>l\<in>set (split_lines ?s). is_hop_line l \<longrightarrow> length (hop_digits l) \<le> int_max_str_digits"
    by code_simp
  have records: "map line_record (filter is_hop_line (split_lines ?s))
     = [\<lparr>hop = 1, ip = Some ''10.0.0.1'', hostname = Some ''gw'', rtt = [Some (Finite 1)]\<rparr>,
        \<lparr>hop = 42, ip = None, hostname = None, rtt = [None, None, None]\<rparr>]"
    by code_simp
  show ?thesis
    unfolding parse_traceroute_total_within_limit[OF within] records ..
qed

text \<open>
  The claim as the specification states it holds for no input restriction at all. A
  hop line whose number has 4301 digits matches \<^verbatim>\<open>hop_line_regex\<close>, and \<^verbatim>\<open>int()\<close> raises
  ValueError on its first group; nothing in \<^verbatim>\<open>parse_traceroute\<close> catches it.
\<close>

theorem parse_traceroute_digit_limit_counterexample:
  "parse_traceroute (replicate 4301 CHR ''1'' @ '' x'') = Inl ValueError"
  by (rule long_hop_raises) (simp_all add: int_max_str_digits_def is_digit_def)

end
